theory Spec2Isabelle
  imports Complex_Main "HOL-Library.AList" "HOL-Library.Sublist"
begin

section \<open>Values\<close>

text \<open>
  The documents of \<^verbatim>\<open>index.d.ts\<close> (\<^verbatim>\<open>JsonValue\<close>): null, booleans, numbers, strings,
  arrays and objects, as \<^verbatim>\<open>JSON.parse\<close> builds them: the prototype of an object is
  \<^verbatim>\<open>Object.prototype\<close>, and its own properties are enumerable data properties. An
  object is the list of its own members in the order they were added; an assignment
  overwrites a member in place or appends a new one, \<^verbatim>\<open>delete\<close> removes it. (The
  language enumerates integer-like keys first. The engine depends on the order in one
  place only: which key a failed comparison names.)

  The engine reads a member as \<^verbatim>\<open>element[index]\<close>, which finds the properties an
  object inherits as well as its own. So two more kinds of value can be read out of a
  document and put back into one: the functions that are the methods of
  \<^verbatim>\<open>Object.prototype\<close>, each named here by the property that holds it (\<open>constructor\<close>
  holds the function \<^verbatim>\<open>Object\<close>), and \<^verbatim>\<open>Object.prototype\<close> itself, the value of the
  inherited property \<^verbatim>\<open>__proto__\<close>.

  Numbers are exact rationals: the rounding of IEEE doubles is not modelled, and no
  function of the engine computes with a document's numbers.
  Strings are lists of 8-bit characters.
\<close>

datatype json =
    JNull
  | JBool bool
  | JNumber rat
  | JString string
  | JArray "json list"
  | JObject "(string \<times> json) list"
  | JFunction string
  | JObjectPrototype

text \<open>\<^verbatim>\<open>util.js\<close>: \<^verbatim>\<open>isArray = Array.isArray\<close>,
  \<^verbatim>\<open>isObject = (x) => x !== null && typeof x === 'object' && !Array.isArray(x)\<close>.\<close>

fun isArray :: "json \<Rightarrow> bool" where
  "isArray (JArray xs) = True"
| "isArray x = False"

fun isObject :: "json \<Rightarrow> bool" where
  "isObject (JObject ms) = True"
| "isObject JObjectPrototype = True"
| "isObject x = False"

text \<open>The \<^verbatim>\<open>typeof\<close> operator, on a value or on \<^verbatim>\<open>undefined\<close> (\<open>None\<close>).\<close>

fun typeof :: "json option \<Rightarrow> string" where
  "typeof None = ''undefined''"
| "typeof (Some JNull) = ''object''"
| "typeof (Some (JBool b)) = ''boolean''"
| "typeof (Some (JNumber n)) = ''number''"
| "typeof (Some (JString s)) = ''string''"
| "typeof (Some (JArray xs)) = ''object''"
| "typeof (Some (JObject ms)) = ''object''"
| "typeof (Some (JFunction f)) = ''function''"
| "typeof (Some JObjectPrototype) = ''object''"

subsection \<open>Properties\<close>

text \<open>The methods of \<^verbatim>\<open>Object.prototype\<close>. With the accessor \<^verbatim>\<open>__proto__\<close> they are its
  own properties, none of them enumerable.\<close>

definition prototypeMethods :: "string list" where
  "prototypeMethods =
     [''constructor'', ''__defineGetter__'', ''__defineSetter__'', ''hasOwnProperty'',
      ''__lookupGetter__'', ''__lookupSetter__'', ''isPrototypeOf'',
      ''propertyIsEnumerable'', ''toString'', ''valueOf'', ''toLocaleString'']"

text \<open>The property \<open>k\<close> of \<^verbatim>\<open>Object.prototype\<close>, read on an object whose prototype is
  \<open>proto\<close>: the getter of \<^verbatim>\<open>__proto__\<close> returns the prototype of the object it is read
  on.\<close>

definition prototypeProperty :: "json \<Rightarrow> string \<Rightarrow> json option" where
  "prototypeProperty proto k =
     (if k = ''__proto__'' then Some proto
      else if k \<in> set prototypeMethods then Some (JFunction k)
      else None)"

text \<open>\<^verbatim>\<open>element[k]\<close> for a key \<open>k\<close>, \<open>None\<close> for \<^verbatim>\<open>undefined\<close>: the member of an object
  with the key, and where the object has no such member the property it inherits from
  \<^verbatim>\<open>Object.prototype\<close>; a property of \<^verbatim>\<open>Object.prototype\<close>, whose own prototype is
  \<^verbatim>\<open>null\<close>. (The engine reads the properties of objects only.)\<close>

fun property :: "json \<Rightarrow> string \<Rightarrow> json option" where
  "property (JObject ms) k =
     (case map_of ms k of
        Some x \<Rightarrow> Some x
      | None \<Rightarrow> prototypeProperty JObjectPrototype k)"
| "property JObjectPrototype k = prototypeProperty JNull k"
| "property element k = None"

text \<open>\<^verbatim>\<open>k in element\<close>: the element has the property or inherits it. (No property of a
  value here holds \<^verbatim>\<open>undefined\<close>.)\<close>

definition hasProperty :: "json \<Rightarrow> string \<Rightarrow> bool" where
  "hasProperty element k \<longleftrightarrow> property element k \<noteq> None"

text \<open>The own enumerable properties of a value, which \<^verbatim>\<open>{ ...element }\<close> copies,
  \<^verbatim>\<open>Object.keys\<close> lists and \<^verbatim>\<open>for ... in\<close> runs over: the members of an object, none
  for \<^verbatim>\<open>Object.prototype\<close>. (The engine applies them to objects only.)\<close>

fun enumerableMembers :: "json \<Rightarrow> (string \<times> json) list" where
  "enumerableMembers (JObject ms) = ms"
| "enumerableMembers x = []"

text \<open>The setter of \<^verbatim>\<open>__proto__\<close> replaces the prototype when it is given an object or
  \<^verbatim>\<open>null\<close> and does nothing when it is given a boolean, a number or a string. Given
  \<^verbatim>\<open>Object.prototype\<close> it leaves a copy as it is: that is the prototype a copy has.\<close>

fun replacesPrototype :: "json \<Rightarrow> bool" where
  "replacesPrototype (JBool b) = False"
| "replacesPrototype (JNumber n) = False"
| "replacesPrototype (JString s) = False"
| "replacesPrototype JObjectPrototype = False"
| "replacesPrototype x = True"

section \<open>Errors\<close>

text \<open>
  Every failure of the engine is a \<^verbatim>\<open>JsonPatchError\<close> carrying a message. The model
  keeps one constructor per message of the source; the variable parts of a message are
  the constructor's arguments.
  \<^item> \<open>InvalidPointer\<close>: bad path: should be "" or start with "/"
  \<^item> \<open>InvalidArrayIndex t\<close>: path token is not a valid array index, was \<open>t\<close>
  \<^item> \<open>TokenContext ty\<close>: token context should either be an array or a string, was \<open>ty\<close>
  \<^item> \<open>PointerExhausted s\<close>: pointer is already fully read; valid section was \<open>s\<close>
  \<^item> \<open>NotFound\<close>: pointer does not lead anywhere
  \<^item> \<open>PathNotObjectOrArray ty\<close>: pointer leads to an element that is neither an array
    nor an object but \<open>ty\<close>
  \<^item> \<open>OutOfBounds\<close>: pointer points to an index that is out-of-bounds
  \<^item> \<open>MissingValue\<close>, \<open>MissingFrom\<close>: missing value, missing from
  \<^item> \<open>NonexistentLocation\<close>: pointer points to a nonexistent location
  \<^item> \<open>InvalidPrefixMove\<close>: from pointer cannot be a prefix of path pointer
  \<^item> \<open>IllegalOp name\<close>: illegal op: should be add/copy/move/remove/replace/test
  \<^item> the remaining constructors are the messages of \<^verbatim>\<open>compare.js\<close>; the values that
    the last of them quotes are left out.

  The one failure that is not a \<^verbatim>\<open>JsonPatchError\<close> is the \<^verbatim>\<open>RangeError\<close> of a recursion
  that does not end. It arises only in the model on a store, where a cell can contain
  itself.

  \<open>PrototypeReplaced\<close> is not a failure of the code. It ends a run in which an
  assignment to \<^verbatim>\<open>__proto__\<close> has given a copy another prototype than
  \<^verbatim>\<open>Object.prototype\<close>: the code goes on with an object that the values above do not
  describe, and the embedding follows the run no further. Where a statement below
  speaks of an operation that fails whatever the failure, a run that ends this way is
  among them; of the code it then says what the engine has done up to the assignment.
\<close>

datatype error_kind =
    InvalidPointer
  | InvalidArrayIndex string
  | TokenContext string
  | PointerExhausted string
  | NotFound
  | PathNotObjectOrArray string
  | OutOfBounds
  | MissingValue
  | MissingFrom
  | NonexistentLocation
  | InvalidPrefixMove
  | IllegalOp string
  | TargetObjectValueNot
  | DifferentKeyCount
  | LacksKey string
  | ExtraKey string
  | TargetArrayValueNot
  | DifferingLength
  | NotEqual

datatype error =
    JsonPatchError (descriptions: "string list") (kind: error_kind)
  | RangeError
  | PrototypeReplaced

text \<open>Modelled from the spec: \<^verbatim>\<open>json-patch-error.js\<close> is not among the sources. Its
  method \<^verbatim>\<open>describe\<close> relabels a failure with the operation that failed
  (\<^verbatim>\<open>"<op> failed: <underlying reason>"\<close>) and preserves the underlying kind.\<close>

definition describe :: "string \<Rightarrow> error \<Rightarrow> error" where
  "describe d e = JsonPatchError (d # descriptions e) (kind e)"

definition throw :: "error_kind \<Rightarrow> error + 'a" where
  "throw k = Inl (JsonPatchError [] k)"

section \<open>The built-ins of the language that the engine calls\<close>

subsection \<open>Strings\<close>

text \<open>\<^verbatim>\<open>s.split(c)\<close> for a one-character separator: the pieces between the separators,
  one more than there are separators.\<close>

fun split :: "char \<Rightarrow> string \<Rightarrow> string list" where
  "split c [] = [[]]"
| "split c (x # xs) =
     (if x = c then [] # split c xs
      else (case split c xs of
              [] \<Rightarrow> [[x]]
            | t # ts \<Rightarrow> (x # t) # ts))"

text \<open>\<^verbatim>\<open>ts.join(sep)\<close>.\<close>

fun join :: "string \<Rightarrow> string list \<Rightarrow> string" where
  "join sep [] = []"
| "join sep [t] = t"
| "join sep (t # u # ts) = t @ sep @ join sep (u # ts)"

text \<open>\<^verbatim>\<open>s.replace(pattern, replacement)\<close> with a string pattern: only the first
  occurrence of the pattern is replaced. (The replacements the engine passes hold no
  \<^verbatim>\<open>$\<close>, so the replacement is inserted as it is.)\<close>

fun replaceFirst :: "string \<Rightarrow> string \<Rightarrow> string \<Rightarrow> string" where
  "replaceFirst pat rep [] = (if pat = [] then rep else [])"
| "replaceFirst pat rep (c # cs) =
     (if prefix pat (c # cs) then rep @ drop (length pat) (c # cs)
      else c # replaceFirst pat rep cs)"

subsection \<open>Numbers read from strings\<close>

text \<open>
  The numbers that \<^verbatim>\<open>parseInt\<close> and the conversion of a string return are exact here:
  an integer, a rational. The engine's doubles agree with them on every token of at
  most fifteen significant digits. On a longer token the engine rounds, and it may
  accept a token that is refused here; a token that is accepted here the engine
  accepts too, as the same position wherever the position lies in an array or next to
  its end. White space is the white space among the characters of the model: the five
  control characters, the space and the no-break space.
\<close>

definition isWhiteSpace :: "char \<Rightarrow> bool" where
  "isWhiteSpace c \<longleftrightarrow>
     c \<in> set [CHR 0x09, CHR 0x0A, CHR 0x0B, CHR 0x0C, CHR 0x0D, CHR 0x20, CHR 0xA0]"

definition isDigit :: "char \<Rightarrow> bool" where
  "isDigit c \<longleftrightarrow> c \<in> set ''0123456789''"

definition isHexDigit :: "char \<Rightarrow> bool" where
  "isHexDigit c \<longleftrightarrow> c \<in> set ''0123456789abcdefABCDEF''"

definition digitValue :: "char \<Rightarrow> nat" where
  "digitValue c =
     (if c \<in> set ''abcdef'' then of_char c - 87
      else if c \<in> set ''ABCDEF'' then of_char c - 55
      else of_char c - 48)"

text \<open>The value of a string of digits in base \<open>b\<close>.\<close>

definition digitsValue :: "nat \<Rightarrow> string \<Rightarrow> nat" where
  "digitsValue b ds = foldl (\<lambda>acc c. b * acc + digitValue c) 0 ds"

text \<open>\<^verbatim>\<open>parseInt(s, 10)\<close>: leading white space is skipped, one sign is read, then the
  longest run of decimal digits; no digit at all gives \<^verbatim>\<open>NaN\<close> (\<open>None\<close>). What follows
  the digits is ignored.\<close>

definition parseInt :: "string \<Rightarrow> int option" where
  "parseInt s =
     (let S = dropWhile isWhiteSpace s;
          sign = (if prefix ''-'' S then - 1 else 1);
          S' = (if prefix ''-'' S \<or> prefix ''+'' S then tl S else S);
          Z = takeWhile isDigit S'
      in if Z = [] then None else Some (sign * int (digitsValue 10 Z)))"

text \<open>A number as the conversion of a string gives it.\<close>

datatype jsnum = NaN | PosInfinity | NegInfinity | Finite rat

definition trim :: "string \<Rightarrow> string" where
  "trim s = rev (dropWhile isWhiteSpace (rev (dropWhile isWhiteSpace s)))"

text \<open>The exponent part of a decimal literal, after the digits of the mantissa: nothing
  (exponent 0), or \<^verbatim>\<open>e\<close>/\<^verbatim>\<open>E\<close>, an optional sign and at least one digit. \<open>None\<close> when
  the text is neither.\<close>

definition exponentPart :: "string \<Rightarrow> int option" where
  "exponentPart r =
     (if r = [] then Some 0
      else if hd r = CHR ''e'' \<or> hd r = CHR ''E'' then
        (let t = tl r;
             neg = prefix ''-'' t;
             ds = (if prefix ''-'' t \<or> prefix ''+'' t then tl t else t)
         in if ds \<noteq> [] \<and> list_all isDigit ds
            then Some ((if neg then - 1 else 1) * int (digitsValue 10 ds))
            else None)
      else None)"

text \<open>The value \<open>m * 10 ^ e\<close> of a decimal literal with mantissa digits \<open>m\<close> and
  exponent \<open>e\<close>.\<close>

definition scale10 :: "nat \<Rightarrow> int \<Rightarrow> rat" where
  "scale10 m e = (if 0 \<le> e then of_nat m * 10 ^ nat e else of_nat m / 10 ^ nat (- e))"

text \<open>An unsigned decimal literal: \<^verbatim>\<open>Infinity\<close>, or digits with an optional fraction and
  an optional exponent, at least one digit before or after the point.\<close>

definition unsignedDecimal :: "string \<Rightarrow> jsnum" where
  "unsignedDecimal s =
     (if s = ''Infinity'' then PosInfinity
      else
        let ip = takeWhile isDigit s;
            r1 = dropWhile isDigit s;
            dot = prefix ''.'' r1;
            fp = (if dot then takeWhile isDigit (tl r1) else []);
            r2 = (if dot then dropWhile isDigit (tl r1) else r1)
        in if ip = [] \<and> fp = [] then NaN
           else (case exponentPart r2 of
                   None \<Rightarrow> NaN
                 | Some e \<Rightarrow> Finite (scale10 (digitsValue 10 (ip @ fp)) (e - int (length fp)))))"

definition negate :: "jsnum \<Rightarrow> jsnum" where
  "negate x = (case x of NaN \<Rightarrow> NaN | PosInfinity \<Rightarrow> NegInfinity
               | NegInfinity \<Rightarrow> PosInfinity | Finite q \<Rightarrow> Finite (- q))"

text \<open>A literal in base 16, 8 or 2: \<^verbatim>\<open>0x\<close>, \<^verbatim>\<open>0o\<close> or \<^verbatim>\<open>0b\<close> (either case) and at least
  one digit of the base; it takes no sign.\<close>

definition nonDecimalLiteral :: "string \<Rightarrow> nat option" where
  "nonDecimalLiteral s =
     (if length s < 3 \<or> hd s \<noteq> CHR ''0'' then None
      else
        let x = s ! 1; ds = drop 2 s
        in if (x = CHR ''x'' \<or> x = CHR ''X'') \<and> list_all isHexDigit ds
             then Some (digitsValue 16 ds)
           else if (x = CHR ''o'' \<or> x = CHR ''O'') \<and> list_all (\<lambda>c. c \<in> set ''01234567'') ds
             then Some (digitsValue 8 ds)
           else if (x = CHR ''b'' \<or> x = CHR ''B'') \<and> list_all (\<lambda>c. c \<in> set ''01'') ds
             then Some (digitsValue 2 ds)
           else None)"

text \<open>The conversion of a string to a number (\<^verbatim>\<open>Number(s)\<close>, and what \<^verbatim>\<open>==\<close> and \<^verbatim>\<open>!=\<close>
  apply to a string compared with a number): white space is trimmed at both ends, the
  empty string is 0, and the rest must be a numeric literal as a whole.\<close>

definition stringToNumber :: "string \<Rightarrow> jsnum" where
  "stringToNumber s =
     (let t = trim s
      in if t = [] then Finite 0
         else (case nonDecimalLiteral t of
                 Some n \<Rightarrow> Finite (of_nat n)
               | None \<Rightarrow>
                   if prefix ''-'' t then negate (unsignedDecimal (tl t))
                   else if prefix ''+'' t then unsignedDecimal (tl t)
                   else unsignedDecimal t))"

text \<open>\<^verbatim>\<open>n != s\<close> for a number \<open>n\<close> that is an integer and a string \<open>s\<close>: the string is
  converted to a number and the numbers are compared.\<close>

definition looseNotEqual :: "int \<Rightarrow> string \<Rightarrow> bool" where
  "looseNotEqual n s \<longleftrightarrow> stringToNumber s \<noteq> Finite (of_int n)"

subsection \<open>Arrays\<close>

text \<open>\<^verbatim>\<open>a.splice(start, deleteCount, ...items)\<close>, as the array it leaves: a negative
  start counts from the end, a start beyond the length is the length.\<close>

definition splice_js :: "'a list \<Rightarrow> int \<Rightarrow> nat \<Rightarrow> 'a list \<Rightarrow> 'a list" where
  "splice_js a start deleteCount items =
     (let len = int (length a);
          actualStart = nat (if start < 0 then max (len + start) 0 else min start len)
      in take actualStart a @ items @ drop (actualStart + deleteCount) a)"

text \<open>\<^verbatim>\<open>a.slice(0, end)\<close>: a negative end counts from the end of the array.\<close>

definition slice0 :: "'a list \<Rightarrow> int \<Rightarrow> 'a list" where
  "slice0 a e =
     (let len = int (length a)
      in take (nat (if e < 0 then max (len + e) 0 else min e len)) a)"

section \<open>\<^verbatim>\<open>pointer.js\<close>\<close>

text \<open>What a token decodes to: a key of an object, or a position in an array.\<close>

datatype member_index = Key string | Idx int

text \<open>A path is a string here, so the first check of \<^verbatim>\<open>validatePath\<close>
  (\<^verbatim>\<open>typeof path !== 'string'\<close>) has no branch.\<close>

definition validatePath :: "string \<Rightarrow> error + unit" where
  "validatePath p =
     (if (p = [] \<or> hd p \<noteq> CHR ''/'') \<and> p \<noteq> [] then throw InvalidPointer else Inr ())"

fun parseTokenString :: "string \<Rightarrow> json \<Rightarrow> error + member_index" where
  "parseTokenString tokenString (JObject ms) =
     Inr (Key (replaceFirst ''~0'' ''~'' (replaceFirst ''~1'' ''/'' tokenString)))"
| "parseTokenString tokenString (JArray xs) =
     (if tokenString = ''-'' then Inr (Idx (int (length xs)))
      else (case parseInt tokenString of
              None \<Rightarrow> throw (InvalidArrayIndex tokenString)
            | Some tokenNumber \<Rightarrow>
                if looseNotEqual tokenNumber tokenString
                then throw (InvalidArrayIndex tokenString)
                else Inr (Idx tokenNumber)))"
| "parseTokenString tokenString JObjectPrototype =
     Inr (Key (replaceFirst ''~0'' ''~'' (replaceFirst ''~1'' ''/'' tokenString)))"
| "parseTokenString tokenString context = throw (TokenContext (typeof (Some context)))"

record pointer =
  tokenStrings :: "string list"
  nextTokenIndex :: nat

text \<open>The constructor: \<^verbatim>\<open>new Pointer(path)\<close>.\<close>

definition Pointer :: "string \<Rightarrow> error + pointer" where
  "Pointer p =
     (case validatePath p of
        Inl e \<Rightarrow> Inl e
      | Inr u \<Rightarrow> Inr \<lparr>tokenStrings = drop 1 (split (CHR ''/'') p), nextTokenIndex = 0\<rparr>)"

text \<open>The loop of \<^verbatim>\<open>isPrefixTo\<close> over the entries of \<^verbatim>\<open>this.tokenStrings\<close>, the other
  pointer's tokens read at the same positions (a position it does not have reads
  \<^verbatim>\<open>undefined\<close>, which differs from every token).\<close>

fun entriesMatch :: "string list \<Rightarrow> string list \<Rightarrow> bool" where
  "entriesMatch [] others = True"
| "entriesMatch (tokenString # rest) [] = False"
| "entriesMatch (tokenString # rest) (other # others) =
     (if tokenString \<noteq> other then False else entriesMatch rest others)"

definition isPrefixTo :: "pointer \<Rightarrow> pointer \<Rightarrow> bool" where
  "isPrefixTo this anotherPointer = entriesMatch (tokenStrings this) (tokenStrings anotherPointer)"

definition tokensLeft :: "pointer \<Rightarrow> int" where
  "tokensLeft this = int (length (tokenStrings this)) - int (nextTokenIndex this)"

definition isFullyRead :: "pointer \<Rightarrow> bool" where
  "isFullyRead this \<longleftrightarrow> tokensLeft this \<le> 0"

text \<open>Reading a token advances the cursor; the pointer is returned with the index.\<close>

definition readNextTokenInContext :: "pointer \<Rightarrow> json \<Rightarrow> error + (member_index \<times> pointer)" where
  "readNextTokenInContext this contextItem =
     (if length (tokenStrings this) \<le> nextTokenIndex this
      then throw (PointerExhausted
                    (join ''/'' (slice0 (tokenStrings this) (int (nextTokenIndex this) - 1))))
      else (case parseTokenString (tokenStrings this ! nextTokenIndex this) contextItem of
              Inl e \<Rightarrow> Inl e
            | Inr i \<Rightarrow> Inr (i, this\<lparr>nextTokenIndex := Suc (nextTokenIndex this)\<rparr>)))"

definition rewind :: "pointer \<Rightarrow> pointer" where
  "rewind this = this\<lparr>nextTokenIndex := 0\<rparr>"

section \<open>\<^verbatim>\<open>compare.js\<close>\<close>

text \<open>The three loops of \<^verbatim>\<open>compareObject\<close> and the loop of \<^verbatim>\<open>compareArray\<close> run over the
  members and elements in order. \<^verbatim>\<open>Object.keys\<close> and \<^verbatim>\<open>for ... in\<close> see the enumerable
  members only, so against \<^verbatim>\<open>Object.prototype\<close> as the compared value the loops run over
  no key. The last loop reads \<^verbatim>\<open>object[valueKey]\<close>, inherited properties included; a
  key for which that is \<^verbatim>\<open>undefined\<close> has been refused before the loop reads it
  (\<^verbatim>\<open>undefined\<close> would be compared as a primitive and differ).\<close>

fun compare :: "json \<Rightarrow> json \<Rightarrow> error + unit"
  and compareArrayLoop :: "json list \<Rightarrow> json list \<Rightarrow> error + unit"
  and compareObjectLoop :: "json \<Rightarrow> (string \<times> json) list \<Rightarrow> error + unit"
where
  "compare item v =
     (if isObject item then
        (case v of
           JObject ms \<Rightarrow>
             if length (map fst (enumerableMembers item)) \<noteq> length (map fst ms)
             then throw DifferentKeyCount
             else (case find (\<lambda>valueKey. \<not> hasProperty item valueKey) (map fst ms) of
                     Some valueKey \<Rightarrow> throw (LacksKey valueKey)
                   | None \<Rightarrow>
                       (case find (\<lambda>key. \<not> hasProperty v key)
                                  (map fst (enumerableMembers item)) of
                          Some key \<Rightarrow> throw (ExtraKey key)
                        | None \<Rightarrow> compareObjectLoop item ms))
         | JObjectPrototype \<Rightarrow>
             if length (map fst (enumerableMembers item)) \<noteq> 0 then throw DifferentKeyCount
             else (case find (\<lambda>key. \<not> hasProperty v key)
                             (map fst (enumerableMembers item)) of
                     Some key \<Rightarrow> throw (ExtraKey key)
                   | None \<Rightarrow> Inr ())
         | _ \<Rightarrow> throw TargetObjectValueNot)
      else
        (case item of
           JArray array \<Rightarrow>
             (case v of
                JArray xs \<Rightarrow>
                  if length array \<noteq> length xs then throw DifferingLength
                  else compareArrayLoop array xs
              | _ \<Rightarrow> throw TargetArrayValueNot)
         | _ \<Rightarrow> if item \<noteq> v then throw NotEqual else Inr ()))"
| "compareArrayLoop array [] = Inr ()"
| "compareArrayLoop [] (x # xs) = Inr ()"
| "compareArrayLoop (a # array) (x # xs) =
     (case compare a x of Inl e \<Rightarrow> Inl e | Inr u \<Rightarrow> compareArrayLoop array xs)"
| "compareObjectLoop item [] = Inr ()"
| "compareObjectLoop item ((valueKey, x) # ms) =
     (case property item valueKey of
        None \<Rightarrow> throw NotEqual
      | Some a \<Rightarrow>
          (case compare a x of Inl e \<Rightarrow> Inl e | Inr u \<Rightarrow> compareObjectLoop item ms))"


section \<open>The engine: \<^verbatim>\<open>index.js\<close>, the version that exports \<^verbatim>\<open>applyPatch\<close>\<close>

subsection \<open>Reading and rebuilding one level\<close>

text \<open>\<^verbatim>\<open>element[index]\<close>, \<open>None\<close> for \<^verbatim>\<open>undefined\<close>: the element of an array at a position
  it has, the property of an object, its own or inherited. An index is always decoded
  against the element it is used on (\<open>readNextTokenInContext\<close>), so an array is read at
  a position and an object at a key; the last equation is never reached.\<close>

fun elementAt :: "json \<Rightarrow> member_index \<Rightarrow> json option" where
  "elementAt (JArray xs) (Idx i) =
     (if 0 \<le> i \<and> i < int (length xs) then Some (xs ! nat i) else None)"
| "elementAt element (Key k) = property element k"
| "elementAt element (Idx i) = None"

text \<open>\<^verbatim>\<open>index > element.length\<close> on an array.\<close>

fun exceedsLength :: "member_index \<Rightarrow> json \<Rightarrow> bool" where
  "exceedsLength (Idx i) (JArray xs) = (i > int (length xs))"
| "exceedsLength i element = False"

text \<open>\<^verbatim>\<open>const newElement = [...element]; newElement.splice(index, deleteCount, ...items)\<close>
  on an array.\<close>

fun spliced :: "json \<Rightarrow> member_index \<Rightarrow> nat \<Rightarrow> json list \<Rightarrow> json" where
  "spliced (JArray xs) (Idx i) deleteCount items = JArray (splice_js xs i deleteCount items)"
| "spliced element i deleteCount items = element"

text \<open>\<^verbatim>\<open>const newElement = { ...element }; newElement[index] = modifiedMember\<close> on an
  object. The copy has the enumerable members of the element and the prototype
  \<^verbatim>\<open>Object.prototype\<close>. The assignment overwrites a member the copy has or appends a
  new one, except for the key \<^verbatim>\<open>__proto__\<close> where the copy has no such member: there
  it calls the setter the copy inherits.\<close>

fun assigned :: "json \<Rightarrow> member_index \<Rightarrow> json \<Rightarrow> error + json" where
  "assigned element (Key k) modifiedMember =
     (let newElement = enumerableMembers element
      in if k = ''__proto__'' \<and> map_of newElement k = None then
           (if replacesPrototype modifiedMember then Inl PrototypeReplaced
            else Inr (JObject newElement))
         else Inr (JObject (AList.update k modifiedMember newElement)))"
| "assigned element (Idx i) modifiedMember = Inr element"

text \<open>\<^verbatim>\<open>const newElement = { ...element }; delete newElement[index]\<close> on an object: a
  member the copy does not have is not deleted, whether the copy inherits a property
  of the name or not.\<close>

fun deleted :: "json \<Rightarrow> member_index \<Rightarrow> json" where
  "deleted element (Key k) = JObject (AList.delete k (enumerableMembers element))"
| "deleted element (Idx i) = element"


subsection \<open>The walks along a pointer\<close>

text \<open>
  Each walk reads one token against the element it stands on and recurses into the
  member the token names, with the pointer as the read left it. The cursor a walk
  leaves behind is never read again: the dispatcher rewinds a pointer before it walks
  it a second time. So a walk returns its result only. A walk is as deep as the pointer
  is long; the limit that the engine's stack puts on the depth is not modelled.
\<close>

function has :: "json \<Rightarrow> pointer \<Rightarrow> error + bool" where
  "has element pointer =
     (if isFullyRead pointer then Inr True
      else (case readNextTokenInContext pointer element of
              Inl e \<Rightarrow> Inl e
            | Inr (i, pointer') \<Rightarrow>
                (case elementAt element i of
                   None \<Rightarrow> Inr False
                 | Some deeperElement \<Rightarrow> has deeperElement pointer')))"
  by pat_completeness auto

termination has
  by (relation "measure (\<lambda>(element, pointer). length (tokenStrings pointer) - nextTokenIndex pointer)")
     (auto simp: readNextTokenInContext_def throw_def split: if_splits sum.splits)

function get :: "json \<Rightarrow> pointer \<Rightarrow> error + json" where
  "get element pointer =
     (if isFullyRead pointer then Inr element
      else (case readNextTokenInContext pointer element of
              Inl e \<Rightarrow> Inl e
            | Inr (i, pointer') \<Rightarrow>
                (case elementAt element i of
                   None \<Rightarrow> throw NotFound
                 | Some deeperElement \<Rightarrow> get deeperElement pointer')))"
  by pat_completeness auto

termination get
  by (relation "measure (\<lambda>(element, pointer). length (tokenStrings pointer) - nextTokenIndex pointer)")
     (auto simp: readNextTokenInContext_def throw_def split: if_splits sum.splits)

function add :: "json \<Rightarrow> pointer \<Rightarrow> json \<Rightarrow> error + json" where
  "add element pointer v =
     (case readNextTokenInContext pointer element of
        Inl e \<Rightarrow> Inl e
      | Inr (i, pointer') \<Rightarrow>
          (case (if isFullyRead pointer' then Inr v
                 else (case elementAt element i of
                         None \<Rightarrow> throw (PathNotObjectOrArray (typeof None))
                       | Some deeperElement \<Rightarrow>
                           if \<not> isArray deeperElement \<and> \<not> isObject deeperElement
                           then throw (PathNotObjectOrArray (typeof (Some deeperElement)))
                           else add deeperElement pointer' v)) of
             Inl e \<Rightarrow> Inl e
           | Inr modifiedMember \<Rightarrow>
               if isArray element then
                 (if exceedsLength i element then throw OutOfBounds
                  else Inr (spliced element i 0 [modifiedMember]))
               else assigned element i modifiedMember))"
  by pat_completeness auto

termination add
  by (relation "measure (\<lambda>(element, pointer, v). length (tokenStrings pointer) - nextTokenIndex pointer)")
     (auto simp: readNextTokenInContext_def throw_def split: if_splits sum.splits)

function replace :: "json \<Rightarrow> pointer \<Rightarrow> json \<Rightarrow> error + json" where
  "replace element pointer v =
     (case readNextTokenInContext pointer element of
        Inl e \<Rightarrow> Inl e
      | Inr (i, pointer') \<Rightarrow>
          (case (if isFullyRead pointer' then Inr v
                 else (case elementAt element i of
                         None \<Rightarrow> throw (PathNotObjectOrArray (typeof None))
                       | Some deeperElement \<Rightarrow>
                           if \<not> isArray deeperElement \<and> \<not> isObject deeperElement
                           then throw (PathNotObjectOrArray (typeof (Some deeperElement)))
                           else replace deeperElement pointer' v)) of
             Inl e \<Rightarrow> Inl e
           | Inr modifiedMember \<Rightarrow>
               if isArray element then Inr (spliced element i 1 [modifiedMember])
               else assigned element i modifiedMember))"
  by pat_completeness auto

termination replace
  by (relation "measure (\<lambda>(element, pointer, v). length (tokenStrings pointer) - nextTokenIndex pointer)")
     (auto simp: readNextTokenInContext_def throw_def split: if_splits sum.splits)

function remove :: "json \<Rightarrow> pointer \<Rightarrow> error + json" where
  "remove element pointer =
     (case readNextTokenInContext pointer element of
        Inl e \<Rightarrow> Inl e
      | Inr (i, pointer') \<Rightarrow>
          if isFullyRead pointer' then
            (if elementAt element i = None then throw NotFound
             else if isArray element then Inr (spliced element i 1 [])
             else Inr (deleted element i))
          else (case elementAt element i of
                  None \<Rightarrow> throw (PathNotObjectOrArray (typeof None))
                | Some deeperElement \<Rightarrow>
                    if \<not> isArray deeperElement \<and> \<not> isObject deeperElement
                    then throw (PathNotObjectOrArray (typeof (Some deeperElement)))
                    else (case remove deeperElement pointer' of
                            Inl e \<Rightarrow> Inl e
                          | Inr modifiedMember \<Rightarrow>
                              if isArray element then Inr (spliced element i 1 [modifiedMember])
                              else assigned element i modifiedMember)))"
  by pat_completeness auto

termination remove
  by (relation "measure (\<lambda>(element, pointer). length (tokenStrings pointer) - nextTokenIndex pointer)")
     (auto simp: readNextTokenInContext_def throw_def split: if_splits sum.splits)

subsection \<open>The dispatcher\<close>

text \<open>
  An operation as the dispatcher reads it: its \<^verbatim>\<open>op\<close> and \<^verbatim>\<open>path\<close>, and the members
  \<^verbatim>\<open>from\<close> and \<^verbatim>\<open>value\<close> that it may or may not have
  (\<^verbatim>\<open>'from' in operation\<close>, \<^verbatim>\<open>'value' in operation\<close>). The type of the values is a
  parameter: \<open>json\<close> here, a value of the store below.
\<close>

record 'v operation =
  op :: string
  path :: string
  from' :: "string option"
  value' :: "'v option"

text \<open>\<^verbatim>\<open>try { ... } catch (e) { if (e instanceof JsonPatchError) { e.describe(d); }
  throw e; }\<close>\<close>

definition catchDescribe :: "string \<Rightarrow> error + 'a \<Rightarrow> error + 'a" where
  "catchDescribe d r =
     (case r of
        Inl e \<Rightarrow> Inl (case e of JsonPatchError ds k \<Rightarrow> describe d e | _ \<Rightarrow> e)
      | Inr x \<Rightarrow> Inr x)"

definition applyOperation :: "json \<Rightarrow> json operation \<Rightarrow> error + json" where
  "applyOperation document operation =
     (if op operation = ''add'' then
        catchDescribe ''add failed''
          (case value' operation of
             None \<Rightarrow> throw MissingValue
           | Some v \<Rightarrow>
               if path operation = '''' then Inr v
               else (case Pointer (path operation) of
                       Inl e \<Rightarrow> Inl e
                     | Inr pathPointer \<Rightarrow> add document pathPointer v))
      else if op operation = ''copy'' then
        catchDescribe ''copy failed''
          (case from' operation of
             None \<Rightarrow> throw MissingFrom
           | Some f \<Rightarrow>
               (case Pointer f of
                  Inl e \<Rightarrow> Inl e
                | Inr fromPointer \<Rightarrow>
                    (case get document fromPointer of
                       Inl e \<Rightarrow> Inl e
                     | Inr v \<Rightarrow>
                         if path operation = '''' then Inr v
                         else (case Pointer (path operation) of
                                 Inl e \<Rightarrow> Inl e
                               | Inr pathPointer \<Rightarrow> add document pathPointer v))))
      else if op operation = ''move'' then
        catchDescribe ''move failed''
          (case from' operation of
             None \<Rightarrow> throw MissingFrom
           | Some f \<Rightarrow>
               if f = path operation then Inr document
               else (case Pointer f of
                       Inl e \<Rightarrow> Inl e
                     | Inr fromPointer \<Rightarrow>
                         (case Pointer (path operation) of
                            Inl e \<Rightarrow> Inl e
                          | Inr pathPointer \<Rightarrow>
                              if isPrefixTo fromPointer pathPointer then throw InvalidPrefixMove
                              else (case get document fromPointer of
                                      Inl e \<Rightarrow> Inl e
                                    | Inr v \<Rightarrow>
                                        if path operation = '''' then Inr v
                                        else (case replace document pathPointer v of
                                                Inl e \<Rightarrow> Inl e
                                              | Inr document' \<Rightarrow>
                                                  if isPrefixTo pathPointer fromPointer
                                                  then Inr document'
                                                  else remove document' (rewind fromPointer))))))
      else if op operation = ''remove'' then
        catchDescribe ''remove failed''
          (if path operation = '''' then Inr JNull
           else (case Pointer (path operation) of
                   Inl e \<Rightarrow> Inl e
                 | Inr pathPointer \<Rightarrow> remove document pathPointer))
      else if op operation = ''replace'' then
        catchDescribe ''replace failed''
          (case value' operation of
             None \<Rightarrow> throw MissingValue
           | Some v \<Rightarrow>
               if path operation = '''' then Inr v
               else (case Pointer (path operation) of
                       Inl e \<Rightarrow> Inl e
                     | Inr pathPointer \<Rightarrow>
                         (case has document pathPointer of
                            Inl e \<Rightarrow> Inl e
                          | Inr found \<Rightarrow>
                              if \<not> found then throw NonexistentLocation
                              else replace document (rewind pathPointer) v)))
      else if op operation = ''test'' then
        catchDescribe ''test failed''
          (case value' operation of
             None \<Rightarrow> throw MissingValue
           | Some v \<Rightarrow>
               (case Pointer (path operation) of
                  Inl e \<Rightarrow> Inl e
                | Inr pathPointer \<Rightarrow>
                    (case get document pathPointer of
                       Inl e \<Rightarrow> Inl e
                     | Inr target \<Rightarrow>
                         (case compare v target of
                            Inl e \<Rightarrow> Inl e
                          | Inr u \<Rightarrow> Inr document))))
      else throw (IllegalOp (op operation)))"

text \<open>A patch is a list of operations, so the check \<^verbatim>\<open>Array.isArray(patch)\<close> has no
  branch. The loop hands each operation the document the one before it returned; a
  failure leaves the loop and the call.\<close>

fun applyPatch :: "json \<Rightarrow> json operation list \<Rightarrow> error + json" where
  "applyPatch document [] = Inr document"
| "applyPatch document (operation # patch) =
     (case applyOperation document operation of
        Inl e \<Rightarrow> Inl e
      | Inr document' \<Rightarrow> applyPatch document' patch)"

declare has.simps [simp del] get.simps [simp del] add.simps [simp del]
  replace.simps [simp del] remove.simps [simp del]

section \<open>Notions the statements use\<close>

text \<open>The decimal numeral of a natural number, without sign or leading zeros, as
  \<^verbatim>\<open>String(n)\<close> renders an index.\<close>

definition digitChar :: "nat \<Rightarrow> char" where
  "digitChar d = ''0123456789'' ! d"

fun renderNat :: "nat \<Rightarrow> string" where
  "renderNat n = (if n < 10 then [digitChar n] else renderNat (n div 10) @ [digitChar (n mod 10)])"

declare renderNat.simps [simp del]

text \<open>Every element that a walk along the pointer crosses is an object: the walk of
  \<open>get\<close>, which reads each token against the element it has reached.\<close>

function objectsAlong :: "json \<Rightarrow> pointer \<Rightarrow> bool" where
  "objectsAlong element pointer =
     (if isFullyRead pointer then True
      else isObject element \<and>
           (case readNextTokenInContext pointer element of
              Inl e \<Rightarrow> True
            | Inr (i, pointer') \<Rightarrow>
                (case elementAt element i of
                   None \<Rightarrow> True
                 | Some deeperElement \<Rightarrow> objectsAlong deeperElement pointer')))"
  by pat_completeness auto

termination objectsAlong
  by (relation "measure (\<lambda>(element, pointer). length (tokenStrings pointer) - nextTokenIndex pointer)")
     (auto simp: readNextTokenInContext_def throw_def split: if_splits sum.splits)

text \<open>The document with the value at a location replaced by another, where the walk
  along the pointer finds the location: the member of an object under its key, the
  element of an array at its position. Where the walk finds nothing the document is
  as it was.\<close>

function withValueAt :: "json \<Rightarrow> pointer \<Rightarrow> json \<Rightarrow> json" where
  "withValueAt element pointer v =
     (if isFullyRead pointer then v
      else (case readNextTokenInContext pointer element of
              Inl e \<Rightarrow> element
            | Inr (i, pointer') \<Rightarrow>
                (case element of
                   JObject ms \<Rightarrow>
                     (case i of
                        Key k \<Rightarrow>
                          (case map_of ms k of
                             None \<Rightarrow> element
                           | Some deeperElement \<Rightarrow>
                               JObject (AList.update k (withValueAt deeperElement pointer' v) ms))
                      | Idx n \<Rightarrow> element)
                 | JArray xs \<Rightarrow>
                     (case i of
                        Idx n \<Rightarrow>
                          if 0 \<le> n \<and> n < int (length xs)
                          then JArray (xs[nat n := withValueAt (xs ! nat n) pointer' v])
                          else element
                      | Key k \<Rightarrow> element)
                 | _ \<Rightarrow> element)))"
  by pat_completeness auto

termination withValueAt
  by (relation "measure (\<lambda>(element, pointer, v). length (tokenStrings pointer) - nextTokenIndex pointer)")
     (auto simp: readNextTokenInContext_def throw_def split: if_splits sum.splits)

declare objectsAlong.simps [simp del] withValueAt.simps [simp del]

section \<open>Notions the proofs use\<close>

text \<open>The pointer with one more token at its end, and the same pointer when all its
  tokens but that one have been read.\<close>

definition child :: "pointer \<Rightarrow> string \<Rightarrow> pointer" where
  "child q t = q\<lparr>tokenStrings := tokenStrings q @ [t]\<rparr>"

definition atLast :: "pointer \<Rightarrow> string \<Rightarrow> pointer" where
  "atLast q t = \<lparr>tokenStrings = tokenStrings q @ [t], nextTokenIndex = length (tokenStrings q)\<rparr>"

section \<open>The engine on a store\<close>

text \<open>
  The functions above take and return values. In the source an array or an object is a
  reference to a mutable cell, and \<^verbatim>\<open>splice\<close>, an assignment to a member and \<^verbatim>\<open>delete\<close>
  write into the cell they are applied to. This section is the same source with the
  cells made explicit, so that it can be said which cells a call writes: a value is a
  primitive or a reference, the store is the list of the cells allocated so far, a
  reference is a position in it. \<^verbatim>\<open>[...element]\<close> and \<^verbatim>\<open>{ ...element }\<close> allocate a new cell
  with the members of the old one; the statement that follows writes into the new
  cell. A function that allocates returns the store with its result, also when it
  throws. \<^verbatim>\<open>Object.prototype\<close> and its methods are objects of the language, not of the
  caller: the engine reads them and never writes to them, and they are values here.
\<close>

datatype hvalue =
    HNull
  | HBool bool
  | HNumber rat
  | HString string
  | HRef nat
  | HFunction string
  | HObjectPrototype

datatype hcell = HArray "hvalue list" | HObject "(string \<times> hvalue) list"

type_synonym store = "hcell list"

text \<open>The cell a value refers to: none for a primitive (and for a reference outside
  the store, which no run of the engine produces).\<close>

fun cell :: "store \<Rightarrow> hvalue \<Rightarrow> hcell option" where
  "cell h (HRef r) = (if r < length h then Some (h ! r) else None)"
| "cell h v = None"

definition alloc :: "store \<Rightarrow> hcell \<Rightarrow> nat \<times> store" where
  "alloc h c = (length h, h @ [c])"

definition writeCell :: "store \<Rightarrow> nat \<Rightarrow> hcell \<Rightarrow> store" where
  "writeCell h r c = h[r := c]"

definition isArrayS :: "store \<Rightarrow> hvalue \<Rightarrow> bool" where
  "isArrayS h x = (case cell h x of Some (HArray xs) \<Rightarrow> True | _ \<Rightarrow> False)"

definition isObjectS :: "store \<Rightarrow> hvalue \<Rightarrow> bool" where
  "isObjectS h x =
     (case cell h x of
        Some (HObject ms) \<Rightarrow> True
      | Some (HArray xs) \<Rightarrow> False
      | None \<Rightarrow> x = HObjectPrototype)"

fun typeofS :: "hvalue option \<Rightarrow> string" where
  "typeofS None = ''undefined''"
| "typeofS (Some HNull) = ''object''"
| "typeofS (Some (HBool b)) = ''boolean''"
| "typeofS (Some (HNumber n)) = ''number''"
| "typeofS (Some (HString s)) = ''string''"
| "typeofS (Some (HRef r)) = ''object''"
| "typeofS (Some (HFunction f)) = ''function''"
| "typeofS (Some HObjectPrototype) = ''object''"

definition parseTokenStringS :: "string \<Rightarrow> store \<Rightarrow> hvalue \<Rightarrow> error + member_index" where
  "parseTokenStringS tokenString h context =
     (case cell h context of
        Some (HObject ms) \<Rightarrow>
          Inr (Key (replaceFirst ''~0'' ''~'' (replaceFirst ''~1'' ''/'' tokenString)))
      | Some (HArray xs) \<Rightarrow>
          if tokenString = ''-'' then Inr (Idx (int (length xs)))
          else (case parseInt tokenString of
                  None \<Rightarrow> throw (InvalidArrayIndex tokenString)
                | Some tokenNumber \<Rightarrow>
                    if looseNotEqual tokenNumber tokenString
                    then throw (InvalidArrayIndex tokenString)
                    else Inr (Idx tokenNumber))
      | None \<Rightarrow>
          if context = HObjectPrototype
          then Inr (Key (replaceFirst ''~0'' ''~'' (replaceFirst ''~1'' ''/'' tokenString)))
          else throw (TokenContext (typeofS (Some context))))"

definition readNextTokenInContextS ::
  "pointer \<Rightarrow> store \<Rightarrow> hvalue \<Rightarrow> error + (member_index \<times> pointer)" where
  "readNextTokenInContextS this h contextItem =
     (if length (tokenStrings this) \<le> nextTokenIndex this
      then throw (PointerExhausted
                    (join ''/'' (slice0 (tokenStrings this) (int (nextTokenIndex this) - 1))))
      else (case parseTokenStringS (tokenStrings this ! nextTokenIndex this) h contextItem of
              Inl e \<Rightarrow> Inl e
            | Inr i \<Rightarrow> Inr (i, this\<lparr>nextTokenIndex := Suc (nextTokenIndex this)\<rparr>)))"

text \<open>The properties of \<^verbatim>\<open>Object.prototype\<close>, read on an object whose prototype is
  \<open>proto\<close>.\<close>

definition prototypePropertyS :: "hvalue \<Rightarrow> string \<Rightarrow> hvalue option" where
  "prototypePropertyS proto k =
     (if k = ''__proto__'' then Some proto
      else if k \<in> set prototypeMethods then Some (HFunction k)
      else None)"

text \<open>\<^verbatim>\<open>element[k]\<close> for a key: the member of the cell, or the inherited property.\<close>

definition propertyS :: "store \<Rightarrow> hvalue \<Rightarrow> string \<Rightarrow> hvalue option" where
  "propertyS h element k =
     (case cell h element of
        Some (HObject ms) \<Rightarrow>
          (case map_of ms k of
             Some x \<Rightarrow> Some x
           | None \<Rightarrow> prototypePropertyS HObjectPrototype k)
      | Some (HArray xs) \<Rightarrow> None
      | None \<Rightarrow> if element = HObjectPrototype then prototypePropertyS HNull k else None)"

definition hasPropertyS :: "store \<Rightarrow> hvalue \<Rightarrow> string \<Rightarrow> bool" where
  "hasPropertyS h element k \<longleftrightarrow> propertyS h element k \<noteq> None"

text \<open>\<^verbatim>\<open>element[index]\<close>\<close>

fun elementAtS :: "store \<Rightarrow> hvalue \<Rightarrow> member_index \<Rightarrow> hvalue option" where
  "elementAtS h element (Idx i) =
     (case cell h element of
        Some (HArray xs) \<Rightarrow> if 0 \<le> i \<and> i < int (length xs) then Some (xs ! nat i) else None
      | _ \<Rightarrow> None)"
| "elementAtS h element (Key k) = propertyS h element k"

fun exceedsLengthS :: "member_index \<Rightarrow> hcell option \<Rightarrow> bool" where
  "exceedsLengthS (Idx i) (Some (HArray xs)) = (i > int (length xs))"
| "exceedsLengthS i c = False"

text \<open>The enumerable members of an object, which \<^verbatim>\<open>{ ...element }\<close> copies.\<close>

definition enumerableMembersS :: "store \<Rightarrow> hvalue \<Rightarrow> (string \<times> hvalue) list" where
  "enumerableMembersS h element = (case cell h element of Some (HObject ms) \<Rightarrow> ms | _ \<Rightarrow> [])"

fun replacesPrototypeS :: "hvalue \<Rightarrow> bool" where
  "replacesPrototypeS (HBool b) = False"
| "replacesPrototypeS (HNumber n) = False"
| "replacesPrototypeS (HString s) = False"
| "replacesPrototypeS HObjectPrototype = False"
| "replacesPrototypeS x = True"

text \<open>\<^verbatim>\<open>const newElement = [...element]; newElement.splice(index, deleteCount, ...items);
  return newElement\<close>: the copy is allocated, the splice is written into the copy.\<close>

fun splicedS :: "store \<Rightarrow> hvalue \<Rightarrow> member_index \<Rightarrow> nat \<Rightarrow> hvalue list \<Rightarrow> hvalue \<times> store" where
  "splicedS h element (Idx i) deleteCount items =
     (case cell h element of
        Some (HArray xs) \<Rightarrow>
          (let (newElement, h') = alloc h (HArray xs)
           in (HRef newElement, writeCell h' newElement (HArray (splice_js xs i deleteCount items))))
      | _ \<Rightarrow> (element, h))"
| "splicedS h element (Key k) deleteCount items = (element, h)"

text \<open>\<^verbatim>\<open>const newElement = { ...element }; newElement[index] = modifiedMember;
  return newElement\<close>: the copy is allocated; the assignment is written into the copy,
  or it calls the setter of \<^verbatim>\<open>__proto__\<close>.\<close>

fun assignedS ::
  "store \<Rightarrow> hvalue \<Rightarrow> member_index \<Rightarrow> hvalue \<Rightarrow> (error + hvalue) \<times> store" where
  "assignedS h element (Key k) modifiedMember =
     (let ms = enumerableMembersS h element;
          (newElement, h') = alloc h (HObject ms)
      in if k = ''__proto__'' \<and> map_of ms k = None then
           (if replacesPrototypeS modifiedMember then (Inl PrototypeReplaced, h')
            else (Inr (HRef newElement), h'))
         else (Inr (HRef newElement),
               writeCell h' newElement (HObject (AList.update k modifiedMember ms))))"
| "assignedS h element (Idx i) modifiedMember = (Inr element, h)"

text \<open>\<^verbatim>\<open>const newElement = { ...element }; delete newElement[index]; return newElement\<close>\<close>

fun deletedS :: "store \<Rightarrow> hvalue \<Rightarrow> member_index \<Rightarrow> hvalue \<times> store" where
  "deletedS h element (Key k) =
     (let ms = enumerableMembersS h element;
          (newElement, h') = alloc h (HObject ms)
      in (HRef newElement, writeCell h' newElement (HObject (AList.delete k ms))))"
| "deletedS h element (Idx i) = (element, h)"


function hasS :: "store \<Rightarrow> hvalue \<Rightarrow> pointer \<Rightarrow> error + bool" where
  "hasS h element pointer =
     (if isFullyRead pointer then Inr True
      else (case readNextTokenInContextS pointer h element of
              Inl e \<Rightarrow> Inl e
            | Inr (i, pointer') \<Rightarrow>
                (case elementAtS h element i of
                   None \<Rightarrow> Inr False
                 | Some deeperElement \<Rightarrow> hasS h deeperElement pointer')))"
  by pat_completeness auto

termination hasS
  by (relation "measure (\<lambda>(h, element, pointer). length (tokenStrings pointer) - nextTokenIndex pointer)")
     (auto simp: readNextTokenInContextS_def throw_def split: if_splits sum.splits)

function getS :: "store \<Rightarrow> hvalue \<Rightarrow> pointer \<Rightarrow> error + hvalue" where
  "getS h element pointer =
     (if isFullyRead pointer then Inr element
      else (case readNextTokenInContextS pointer h element of
              Inl e \<Rightarrow> Inl e
            | Inr (i, pointer') \<Rightarrow>
                (case elementAtS h element i of
                   None \<Rightarrow> throw NotFound
                 | Some deeperElement \<Rightarrow> getS h deeperElement pointer')))"
  by pat_completeness auto

termination getS
  by (relation "measure (\<lambda>(h, element, pointer). length (tokenStrings pointer) - nextTokenIndex pointer)")
     (auto simp: readNextTokenInContextS_def throw_def split: if_splits sum.splits)

function addS :: "store \<Rightarrow> hvalue \<Rightarrow> pointer \<Rightarrow> hvalue \<Rightarrow> (error + hvalue) \<times> store" where
  "addS h element pointer v =
     (case readNextTokenInContextS pointer h element of
        Inl e \<Rightarrow> (Inl e, h)
      | Inr (i, pointer') \<Rightarrow>
          (case (if isFullyRead pointer' then (Inr v, h)
                 else (case elementAtS h element i of
                         None \<Rightarrow> (throw (PathNotObjectOrArray (typeofS None)), h)
                       | Some deeperElement \<Rightarrow>
                           if \<not> isArrayS h deeperElement \<and> \<not> isObjectS h deeperElement
                           then (throw (PathNotObjectOrArray (typeofS (Some deeperElement))), h)
                           else addS h deeperElement pointer' v)) of
             (Inl e, h') \<Rightarrow> (Inl e, h')
           | (Inr modifiedMember, h') \<Rightarrow>
               if isArrayS h' element then
                 (if exceedsLengthS i (cell h' element) then (throw OutOfBounds, h')
                  else (case splicedS h' element i 0 [modifiedMember] of
                          (newElement, h'') \<Rightarrow> (Inr newElement, h'')))
               else assignedS h' element i modifiedMember))"
  by pat_completeness auto

termination addS
  by (relation "measure (\<lambda>(h, element, pointer, v). length (tokenStrings pointer) - nextTokenIndex pointer)")
     (auto simp: readNextTokenInContextS_def throw_def split: if_splits sum.splits)

function replaceS :: "store \<Rightarrow> hvalue \<Rightarrow> pointer \<Rightarrow> hvalue \<Rightarrow> (error + hvalue) \<times> store" where
  "replaceS h element pointer v =
     (case readNextTokenInContextS pointer h element of
        Inl e \<Rightarrow> (Inl e, h)
      | Inr (i, pointer') \<Rightarrow>
          (case (if isFullyRead pointer' then (Inr v, h)
                 else (case elementAtS h element i of
                         None \<Rightarrow> (throw (PathNotObjectOrArray (typeofS None)), h)
                       | Some deeperElement \<Rightarrow>
                           if \<not> isArrayS h deeperElement \<and> \<not> isObjectS h deeperElement
                           then (throw (PathNotObjectOrArray (typeofS (Some deeperElement))), h)
                           else replaceS h deeperElement pointer' v)) of
             (Inl e, h') \<Rightarrow> (Inl e, h')
           | (Inr modifiedMember, h') \<Rightarrow>
               if isArrayS h' element then
                 (case splicedS h' element i 1 [modifiedMember] of
                    (newElement, h'') \<Rightarrow> (Inr newElement, h''))
               else assignedS h' element i modifiedMember))"
  by pat_completeness auto

termination replaceS
  by (relation "measure (\<lambda>(h, element, pointer, v). length (tokenStrings pointer) - nextTokenIndex pointer)")
     (auto simp: readNextTokenInContextS_def throw_def split: if_splits sum.splits)

function removeS :: "store \<Rightarrow> hvalue \<Rightarrow> pointer \<Rightarrow> (error + hvalue) \<times> store" where
  "removeS h element pointer =
     (case readNextTokenInContextS pointer h element of
        Inl e \<Rightarrow> (Inl e, h)
      | Inr (i, pointer') \<Rightarrow>
          if isFullyRead pointer' then
            (if elementAtS h element i = None then (throw NotFound, h)
             else if isArrayS h element then
               (case splicedS h element i 1 [] of (newElement, h') \<Rightarrow> (Inr newElement, h'))
             else (case deletedS h element i of (newElement, h') \<Rightarrow> (Inr newElement, h')))
          else (case elementAtS h element i of
                  None \<Rightarrow> (throw (PathNotObjectOrArray (typeofS None)), h)
                | Some deeperElement \<Rightarrow>
                    if \<not> isArrayS h deeperElement \<and> \<not> isObjectS h deeperElement
                    then (throw (PathNotObjectOrArray (typeofS (Some deeperElement))), h)
                    else (case removeS h deeperElement pointer' of
                            (Inl e, h') \<Rightarrow> (Inl e, h')
                          | (Inr modifiedMember, h') \<Rightarrow>
                              if isArrayS h' element then
                                (case splicedS h' element i 1 [modifiedMember] of
                                   (newElement, h'') \<Rightarrow> (Inr newElement, h''))
                              else assignedS h' element i modifiedMember)))"
  by pat_completeness auto

termination removeS
  by (relation "measure (\<lambda>(h, element, pointer). length (tokenStrings pointer) - nextTokenIndex pointer)")
     (auto simp: readNextTokenInContextS_def throw_def split: if_splits sum.splits)

declare hasS.simps [simp del] getS.simps [simp del] addS.simps [simp del]
  replaceS.simps [simp del] removeS.simps [simp del]
text \<open>
  \<^verbatim>\<open>compare.js\<close> on the store. The comparison follows references, and a store can hold a
  cell that contains itself, so the recursion carries the depth that is left: a
  comparison that goes deeper than the store has cells does not end, and the engine's
  stack runs out. Each loop stops at the first comparison that fails.
\<close>

fun firstFailure :: "(error + unit) list \<Rightarrow> error + unit" where
  "firstFailure [] = Inr ()"
| "firstFailure (Inl e # rs) = Inl e"
| "firstFailure (Inr u # rs) = firstFailure rs"

primrec compareS :: "nat \<Rightarrow> store \<Rightarrow> hvalue \<Rightarrow> hvalue \<Rightarrow> error + unit" where
  "compareS 0 h item v = Inl RangeError"
| "compareS (Suc depth) h item v =
     (if isObjectS h item then
        (if \<not> isObjectS h v then throw TargetObjectValueNot
         else if length (map fst (enumerableMembersS h item))
                 \<noteq> length (map fst (enumerableMembersS h v))
         then throw DifferentKeyCount
         else (case find (\<lambda>valueKey. \<not> hasPropertyS h item valueKey)
                         (map fst (enumerableMembersS h v)) of
                 Some valueKey \<Rightarrow> throw (LacksKey valueKey)
               | None \<Rightarrow>
                   (case find (\<lambda>key. \<not> hasPropertyS h v key)
                              (map fst (enumerableMembersS h item)) of
                      Some key \<Rightarrow> throw (ExtraKey key)
                    | None \<Rightarrow>
                        firstFailure
                          (map (\<lambda>(valueKey, x).
                                  case propertyS h item valueKey of
                                    None \<Rightarrow> throw NotEqual
                                  | Some a \<Rightarrow> compareS depth h a x)
                               (enumerableMembersS h v)))))
      else
        (case cell h item of
           Some (HArray array) \<Rightarrow>
             (case cell h v of
                Some (HArray xs) \<Rightarrow>
                  if length array \<noteq> length xs then throw DifferingLength
                  else firstFailure (map (\<lambda>(a, x). compareS depth h a x) (zip array xs))
              | _ \<Rightarrow> throw TargetArrayValueNot)
         | _ \<Rightarrow> if item \<noteq> v then throw NotEqual else Inr ()))"


definition catchDescribeS :: "string \<Rightarrow> (error + 'a) \<times> store \<Rightarrow> (error + 'a) \<times> store" where
  "catchDescribeS d r = (catchDescribe d (fst r), snd r)"

definition applyOperationS ::
  "store \<Rightarrow> hvalue \<Rightarrow> hvalue operation \<Rightarrow> (error + hvalue) \<times> store" where
  "applyOperationS h document operation =
     (if op operation = ''add'' then
        catchDescribeS ''add failed''
          (case value' operation of
             None \<Rightarrow> (throw MissingValue, h)
           | Some v \<Rightarrow>
               if path operation = '''' then (Inr v, h)
               else (case Pointer (path operation) of
                       Inl e \<Rightarrow> (Inl e, h)
                     | Inr pathPointer \<Rightarrow> addS h document pathPointer v))
      else if op operation = ''copy'' then
        catchDescribeS ''copy failed''
          (case from' operation of
             None \<Rightarrow> (throw MissingFrom, h)
           | Some f \<Rightarrow>
               (case Pointer f of
                  Inl e \<Rightarrow> (Inl e, h)
                | Inr fromPointer \<Rightarrow>
                    (case getS h document fromPointer of
                       Inl e \<Rightarrow> (Inl e, h)
                     | Inr v \<Rightarrow>
                         if path operation = '''' then (Inr v, h)
                         else (case Pointer (path operation) of
                                 Inl e \<Rightarrow> (Inl e, h)
                               | Inr pathPointer \<Rightarrow> addS h document pathPointer v))))
      else if op operation = ''move'' then
        catchDescribeS ''move failed''
          (case from' operation of
             None \<Rightarrow> (throw MissingFrom, h)
           | Some f \<Rightarrow>
               if f = path operation then (Inr document, h)
               else (case Pointer f of
                       Inl e \<Rightarrow> (Inl e, h)
                     | Inr fromPointer \<Rightarrow>
                         (case Pointer (path operation) of
                            Inl e \<Rightarrow> (Inl e, h)
                          | Inr pathPointer \<Rightarrow>
                              if isPrefixTo fromPointer pathPointer
                              then (throw InvalidPrefixMove, h)
                              else (case getS h document fromPointer of
                                      Inl e \<Rightarrow> (Inl e, h)
                                    | Inr v \<Rightarrow>
                                        if path operation = '''' then (Inr v, h)
                                        else (case replaceS h document pathPointer v of
                                                (Inl e, h') \<Rightarrow> (Inl e, h')
                                              | (Inr document', h') \<Rightarrow>
                                                  if isPrefixTo pathPointer fromPointer
                                                  then (Inr document', h')
                                                  else removeS h' document' (rewind fromPointer))))))
      else if op operation = ''remove'' then
        catchDescribeS ''remove failed''
          (if path operation = '''' then (Inr HNull, h)
           else (case Pointer (path operation) of
                   Inl e \<Rightarrow> (Inl e, h)
                 | Inr pathPointer \<Rightarrow> removeS h document pathPointer))
      else if op operation = ''replace'' then
        catchDescribeS ''replace failed''
          (case value' operation of
             None \<Rightarrow> (throw MissingValue, h)
           | Some v \<Rightarrow>
               if path operation = '''' then (Inr v, h)
               else (case Pointer (path operation) of
                       Inl e \<Rightarrow> (Inl e, h)
                     | Inr pathPointer \<Rightarrow>
                         (case hasS h document pathPointer of
                            Inl e \<Rightarrow> (Inl e, h)
                          | Inr found \<Rightarrow>
                              if \<not> found then (throw NonexistentLocation, h)
                              else replaceS h document (rewind pathPointer) v)))
      else if op operation = ''test'' then
        catchDescribeS ''test failed''
          (case value' operation of
             None \<Rightarrow> (throw MissingValue, h)
           | Some v \<Rightarrow>
               (case Pointer (path operation) of
                  Inl e \<Rightarrow> (Inl e, h)
                | Inr pathPointer \<Rightarrow>
                    (case getS h document pathPointer of
                       Inl e \<Rightarrow> (Inl e, h)
                     | Inr target \<Rightarrow>
                         (case compareS (Suc (length h)) h v target of
                            Inl e \<Rightarrow> (Inl e, h)
                          | Inr u \<Rightarrow> (Inr document, h)))))
      else (throw (IllegalOp (op operation)), h))"

text \<open>The loop of \<^verbatim>\<open>applyPatch\<close>: the variable \<^verbatim>\<open>document\<close> is local to the call, and
  each turn binds it to what the operation returned. It is the only assignment of the
  loop.\<close>

fun applyPatchS ::
  "store \<Rightarrow> hvalue \<Rightarrow> hvalue operation list \<Rightarrow> (error + hvalue) \<times> store" where
  "applyPatchS h document [] = (Inr document, h)"
| "applyPatchS h document (operation # patch) =
     (case applyOperationS h document operation of
        (Inl e, h') \<Rightarrow> (Inl e, h')
      | (Inr document', h') \<Rightarrow> applyPatchS h' document' patch)"

section \<open>The documents a store holds\<close>

text \<open>
  A value of the store denotes a document: a primitive denotes itself, and so do a
  method of \<^verbatim>\<open>Object.prototype\<close> and \<^verbatim>\<open>Object.prototype\<close>; a reference denotes the array
  or the object whose members are denoted by the members of its cell. The relation is inductive, so a reference on a cycle denotes nothing.
\<close>

inductive denotes :: "store \<Rightarrow> hvalue \<Rightarrow> json \<Rightarrow> bool" for h :: store where
  dNull: "denotes h HNull JNull"
| dBool: "denotes h (HBool b) (JBool b)"
| dNumber: "denotes h (HNumber n) (JNumber n)"
| dString: "denotes h (HString s) (JString s)"
| dFunction: "denotes h (HFunction f) (JFunction f)"
| dPrototype: "denotes h HObjectPrototype JObjectPrototype"
| dArray: "r < length h \<Longrightarrow> h ! r = HArray xs \<Longrightarrow> list_all2 (denotes h) xs js
           \<Longrightarrow> denotes h (HRef r) (JArray js)"
| dObject: "r < length h \<Longrightarrow> h ! r = HObject ms
           \<Longrightarrow> list_all2 (\<lambda>m n. fst m = fst n \<and> denotes h (snd m) (snd n)) ms ns
           \<Longrightarrow> denotes h (HRef r) (JObject ns)"

text \<open>The nesting depth of a document.\<close>

fun height :: "json \<Rightarrow> nat" where
  "height (JArray js) = Suc (Max (insert 0 (height ` set js)))"
| "height (JObject ns) = Suc (Max (insert 0 ((\<lambda>n. height (snd n)) ` set ns)))"
| "height j = 0"

text \<open>An operation on the store and an operation on documents that are the same but for
  the representation of the value they carry.\<close>

definition sameOperation :: "store \<Rightarrow> hvalue operation \<Rightarrow> json operation \<Rightarrow> bool" where
  "sameOperation h operationS operation \<longleftrightarrow>
     op operationS = op operation \<and> path operationS = path operation
     \<and> from' operationS = from' operation
     \<and> rel_option (denotes h) (value' operationS) (value' operation)"

declare compare.simps(1) [simp del]

section \<open>Patches\<close>

text \<open>
  C9. The empty patch is an identity: for every document, applying the empty list of
  operations succeeds and returns the document itself.
\<close>

theorem empty_patch_identity: "applyPatch document [] = Inr document"
  by simp

text \<open>
  C8. Removing the document root succeeds whatever the document is, and returns
  \<^verbatim>\<open>null\<close>: a \<^verbatim>\<open>remove\<close> with the empty path, whichever other members the operation has.
\<close>

theorem remove_root_returns_null:
  "applyPatch document [\<lparr>op = ''remove'', path = '''', from' = f, value' = v\<rparr>] = Inr JNull"
  by (simp add: applyOperation_def catchDescribe_def)

lemma applyPatch_append:
  "applyPatch document (pre @ post) =
     (case applyPatch document pre of Inl e \<Rightarrow> Inl e | Inr document' \<Rightarrow> applyPatch document' post)"
  by (induction pre arbitrary: document) (auto split: sum.splits)

text \<open>The loop stops at the first operation that fails, with that operation's
  failure.\<close>

lemma applyPatch_failure:
  "applyPatch document pre = Inr document' \<Longrightarrow> applyOperation document' operation = Inl e
   \<Longrightarrow> applyPatch document (pre @ operation # post) = Inl e"
  by (simp add: applyPatch_append)

section \<open>Pointers\<close>

lemma readNext_Inr:
  "readNextTokenInContext p c = Inr (i, p') \<Longrightarrow>
     p' = p\<lparr>nextTokenIndex := Suc (nextTokenIndex p)\<rparr>
     \<and> nextTokenIndex p < length (tokenStrings p)
     \<and> parseTokenString (tokenStrings p ! nextTokenIndex p) c = Inr i"
  by (auto simp: readNextTokenInContext_def throw_def split: if_splits sum.splits)

lemma parseTokenString_shape:
  "parseTokenString t c = Inr i \<Longrightarrow>
     (\<exists>xs n. c = JArray xs \<and> i = Idx n) \<or> (\<exists>ms k. c = JObject ms \<and> i = Key k)
     \<or> (\<exists>k. c = JObjectPrototype \<and> i = Key k)"
  by (cases c) (auto simp: throw_def split: if_splits option.splits)

lemma readNext_object:
  "readNextTokenInContext p (JObject ms) = readNextTokenInContext p (JObject ms')"
  by (simp add: readNextTokenInContext_def)

lemma readNext_cases:
  assumes "readNextTokenInContext p element = Inr (i, p')"
  obtains (Array) A n where "element = JArray A" "i = Idx n"
  | (Object) ms k where "element = JObject ms" "i = Key k"
  | (Prototype) k where "element = JObjectPrototype" "i = Key k"
  using readNext_Inr [OF assms] parseTokenString_shape by blast

lemma get_fully_read: "isFullyRead p \<Longrightarrow> get element p = Inr element"
  by (simp add: get.simps)

lemma has_fully_read: "isFullyRead p \<Longrightarrow> has element p = Inr True"
  by (simp add: has.simps)

text \<open>
  C10. The pointer string \<^verbatim>\<open>/\<close> has one token, the empty string, and against an object
  the token is the key \<^verbatim>\<open>""\<close>: in an object that has a member with the empty key,
  \<^verbatim>\<open>get\<close> reads that member, \<^verbatim>\<open>remove\<close> deletes it, and \<^verbatim>\<open>replace\<close> and \<^verbatim>\<open>add\<close>
  overwrite it.
\<close>

theorem slash_addresses_empty_key:
  assumes "map_of ms '''' = Some x"
  shows "Pointer ''/'' = Inr \<lparr>tokenStrings = [''''], nextTokenIndex = 0\<rparr>
    \<and> get (JObject ms) \<lparr>tokenStrings = [''''], nextTokenIndex = 0\<rparr> = Inr x
    \<and> applyPatch (JObject ms) [\<lparr>op = ''remove'', path = ''/'', from' = f, value' = w\<rparr>]
        = Inr (JObject (AList.delete '''' ms))
    \<and> applyPatch (JObject ms) [\<lparr>op = ''replace'', path = ''/'', from' = f, value' = Some v\<rparr>]
        = Inr (JObject (AList.update '''' v ms))
    \<and> applyPatch (JObject ms) [\<lparr>op = ''add'', path = ''/'', from' = f, value' = Some v\<rparr>]
        = Inr (JObject (AList.update '''' v ms))"
proof -
  let ?p = "\<lparr>tokenStrings = [''''], nextTokenIndex = 0\<rparr>"
  have p: "Pointer ''/'' = Inr ?p"
    by (simp add: Pointer_def validatePath_def)
  let ?q = "\<lparr>tokenStrings = [''''], nextTokenIndex = Suc 0\<rparr>"
  have r: "readNextTokenInContext ?p (JObject ms') = Inr (Key '''', ?q)" for ms'
    by (simp add: readNextTokenInContext_def)
  have fr: "\<not> isFullyRead ?p" "isFullyRead ?q"
    by (simp_all add: isFullyRead_def tokensLeft_def)
  have g: "get (JObject ms) ?p = Inr x"
    using assms by (simp add: get.simps [of _ ?p] get_fully_read r fr)
  have h: "has (JObject ms) ?p = Inr True"
    using assms by (simp add: has.simps [of _ ?p] has_fully_read r fr)
  have rm: "remove (JObject ms) ?p = Inr (JObject (AList.delete '''' ms))"
    using assms by (simp add: remove.simps [of _ ?p] r fr)
  have rp: "replace (JObject ms) ?p v = Inr (JObject (AList.update '''' v ms))"
    by (simp add: replace.simps [of _ ?p] r fr)
  have ad: "add (JObject ms) ?p v = Inr (JObject (AList.update '''' v ms))"
    by (simp add: add.simps [of _ ?p] r fr)
  show ?thesis
    using p g h rm rp ad
    by (simp add: applyOperation_def catchDescribe_def rewind_def)
qed

theorem slash_addresses_empty_key_witness:
  "map_of [('''', JNumber 1), (''a'', JNumber 2)] '''' = Some (JNumber 1)
   \<and> applyPatch (JObject [('''', JNumber 1), (''a'', JNumber 2)])
       [\<lparr>op = ''remove'', path = ''/'', from' = None, value' = None\<rparr>]
     = Inr (JObject [(''a'', JNumber 2)])"
proof -
  have a: "map_of [('''', JNumber 1), (''a'', JNumber 2)] '''' = Some (JNumber 1)"
    by simp
  from slash_addresses_empty_key [OF a, of None None] a show ?thesis
    by (simp add: AList.delete_eq)
qed

section \<open>What a call writes\<close>

lemma alloc_write_frame: "prefix h (writeCell (h @ [c]) (length h) c')"
  by (simp add: writeCell_def)

lemma splicedS_frame: "prefix h (snd (splicedS h element i deleteCount items))"
  by (cases i) (auto simp: alloc_def alloc_write_frame split: option.splits hcell.splits)

lemma assignedS_frame: "prefix h (snd (assignedS h element i modifiedMember))"
  by (cases i) (auto simp: alloc_def alloc_write_frame Let_def)

lemma deletedS_frame: "prefix h (snd (deletedS h element i))"
  by (cases i) (auto simp: alloc_def alloc_write_frame Let_def)

lemma splicedS_frame': "prefix h0 h \<Longrightarrow> prefix h0 (snd (splicedS h element i deleteCount items))"
  using splicedS_frame [of h element i deleteCount items] by (rule prefix_order.trans [rotated])

lemma assignedS_frame': "prefix h0 h \<Longrightarrow> prefix h0 (snd (assignedS h element i m))"
  using assignedS_frame [of h element i m] by (rule prefix_order.trans [rotated])

lemma deletedS_frame': "prefix h0 h \<Longrightarrow> prefix h0 (snd (deletedS h element i))"
  using deletedS_frame [of h element i] by (rule prefix_order.trans [rotated])

lemmas store_frames = splicedS_frame' assignedS_frame' deletedS_frame'

lemma addS_frame: "prefix h (snd (addS h element p v))"
proof (induction h element p v rule: addS.induct)
  case (1 h element pointer v)
  show ?case
    using "1.IH"
    by (subst addS.simps)
       (auto split: sum.splits option.splits simp: throw_def case_prod_beta intro!: store_frames)
qed

lemma replaceS_frame: "prefix h (snd (replaceS h element p v))"
proof (induction h element p v rule: replaceS.induct)
  case (1 h element pointer v)
  show ?case
    using "1.IH"
    by (subst replaceS.simps)
       (auto split: sum.splits option.splits simp: throw_def case_prod_beta intro!: store_frames)
qed

lemma removeS_frame: "prefix h (snd (removeS h element p))"
proof (induction h element p rule: removeS.induct)
  case (1 h element pointer)
  show ?case
    using "1.IH"
    by (subst removeS.simps)
       (auto split: sum.splits option.splits simp: throw_def case_prod_beta intro!: store_frames)
qed

lemma addS_frame': "prefix h0 h \<Longrightarrow> prefix h0 (snd (addS h element p v))"
  using addS_frame [of h element p v] by (rule prefix_order.trans [rotated])

lemma replaceS_frame': "prefix h0 h \<Longrightarrow> prefix h0 (snd (replaceS h element p v))"
  using replaceS_frame [of h element p v] by (rule prefix_order.trans [rotated])

lemma removeS_frame': "prefix h0 h \<Longrightarrow> prefix h0 (snd (removeS h element p))"
  using removeS_frame [of h element p] by (rule prefix_order.trans [rotated])

lemmas walk_frames = addS_frame' replaceS_frame' removeS_frame'

lemma snd_catchDescribeS: "snd (catchDescribeS d r) = snd r"
  by (simp add: catchDescribeS_def)

lemma applyOperationS_frame: "prefix h (snd (applyOperationS h document operation))"
proof -
  consider (add) "op operation = ''add''" | (copy) "op operation = ''copy''"
    | (move) "op operation = ''move''" | (remove) "op operation = ''remove''"
    | (replace) "op operation = ''replace''" | (test) "op operation = ''test''"
    | (other) "op operation \<notin> {''add'', ''copy'', ''move'', ''remove'', ''replace'', ''test''}"
    by blast
  then show ?thesis
  proof cases
    case add
    then show ?thesis
      by (auto simp: applyOperationS_def snd_catchDescribeS throw_def
          split: sum.splits option.splits intro!: walk_frames)
  next
    case copy
    then show ?thesis
      by (auto simp: applyOperationS_def snd_catchDescribeS throw_def
          split: sum.splits option.splits intro!: walk_frames)
  next
    case move
    then show ?thesis
      by (auto simp: applyOperationS_def snd_catchDescribeS throw_def case_prod_beta
          split: sum.splits option.splits intro!: walk_frames)
  next
    case remove
    then show ?thesis
      by (auto simp: applyOperationS_def snd_catchDescribeS throw_def
          split: sum.splits option.splits intro!: walk_frames)
  next
    case replace
    then show ?thesis
      by (auto simp: applyOperationS_def snd_catchDescribeS throw_def
          split: sum.splits option.splits intro!: walk_frames)
  next
    case test
    then show ?thesis
      by (auto simp: applyOperationS_def snd_catchDescribeS throw_def
          split: sum.splits option.splits)
  next
    case other
    then show ?thesis
      by (simp add: applyOperationS_def throw_def)
  qed
qed



section \<open>The engine on a store computes what the engine on documents computes\<close>

lemma denotes_mono: "denotes h x j \<Longrightarrow> prefix h h' \<Longrightarrow> denotes h' x j"
proof (induction rule: denotes.induct)
  case (dArray r xs js)
  from dArray.prems obtain ext where h': "h' = h @ ext" by (auto simp: prefix_def)
  have "list_all2 (denotes h') xs js"
    using dArray.IH dArray.prems by (auto elim: list_all2_mono)
  with dArray.hyps show ?case
    by (auto intro!: denotes.dArray simp: h' nth_append)
next
  case (dObject r ms ns)
  from dObject.prems obtain ext where h': "h' = h @ ext" by (auto simp: prefix_def)
  have "list_all2 (\<lambda>m n. fst m = fst n \<and> denotes h' (snd m) (snd n)) ms ns"
    using dObject.IH dObject.prems by (auto elim: list_all2_mono)
  with dObject.hyps show ?case
    by (auto intro!: denotes.dObject simp: h' nth_append)
qed (auto intro: denotes.intros)

lemma denotes_array:
  "denotes h x (JArray js) \<Longrightarrow> \<exists>xs. cell h x = Some (HArray xs) \<and> list_all2 (denotes h) xs js"
  by (erule denotes.cases) auto

lemma denotes_object:
  "denotes h x (JObject ns) \<Longrightarrow>
     \<exists>ms. cell h x = Some (HObject ms)
        \<and> list_all2 (\<lambda>m n. fst m = fst n \<and> denotes h (snd m) (snd n)) ms ns"
  by (erule denotes.cases) auto

lemma denotes_primitive:
  "denotes h x j \<Longrightarrow> \<not> isArray j \<Longrightarrow> \<not> isObject j \<Longrightarrow> cell h x = None"
  by (erule denotes.cases) auto


lemma denotes_kind:
  assumes "denotes h x j"
  shows "isArrayS h x = isArray j" and "isObjectS h x = isObject j"
    and "typeofS (Some x) = typeof (Some j)"
  using assms by (induction rule: denotes.induct) (auto simp: isArrayS_def isObjectS_def)

lemma denotes_parseTokenString:
  "denotes h x j \<Longrightarrow> parseTokenStringS t h x = parseTokenString t j"
  by (induction rule: denotes.induct)
     (auto simp: parseTokenStringS_def dest: list_all2_lengthD)

lemma denotes_readNext:
  "denotes h x j \<Longrightarrow> readNextTokenInContextS p h x = readNextTokenInContext p j"
  by (simp add: readNextTokenInContextS_def readNextTokenInContext_def denotes_parseTokenString)

lemma members_map_of:
  "list_all2 (\<lambda>m n. fst m = fst n \<and> R (snd m) (snd n)) ms ns
   \<Longrightarrow> rel_option R (map_of ms k) (map_of ns k)"
  by (induction ms ns rule: list_all2_induct) auto

lemma denotes_prototypeProperty:
  "denotes h x j
   \<Longrightarrow> rel_option (denotes h) (prototypePropertyS x k) (prototypeProperty j k)"
  by (simp add: prototypePropertyS_def prototypeProperty_def denotes.dFunction)

lemma denotes_property:
  assumes "denotes h x j"
  shows "rel_option (denotes h) (propertyS h x k) (property j k)"
  using assms
proof (cases rule: denotes.cases)
  case (dObject r ms ns)
  from members_map_of [OF dObject(5), of k] show ?thesis
  proof (cases rule: option.rel_cases)
    case None
    with dObject denotes_prototypeProperty [OF denotes.dPrototype, of h k] show ?thesis
      by (simp add: propertyS_def)
  next
    case (Some y z)
    with dObject show ?thesis by (simp add: propertyS_def)
  qed
next
  case dPrototype
  with denotes_prototypeProperty [OF denotes.dNull, of h k] show ?thesis
    by (simp add: propertyS_def)
qed (simp_all add: propertyS_def)

lemma denotes_elementAt:
  assumes "denotes h x j"
  shows "rel_option (denotes h) (elementAtS h x i) (elementAt j i)"
proof (cases i)
  case (Key k)
  with denotes_property [OF assms, of k] show ?thesis by simp
next
  case (Idx n)
  from assms show ?thesis
  proof (cases rule: denotes.cases)
    case (dArray r xs js)
    then have "denotes h (xs ! m) (js ! m)" if "m < length js" for m
      using that by (auto dest: list_all2_nthD2)
    with dArray show ?thesis
      by (auto simp: Idx list_all2_lengthD)
  qed (simp_all add: Idx)
qed

lemma denotes_enumerableMembers:
  assumes "denotes h x j"
  shows "list_all2 (\<lambda>m n. fst m = fst n \<and> denotes h (snd m) (snd n))
           (enumerableMembersS h x) (enumerableMembers j)"
  using assms by (cases rule: denotes.cases) (simp_all add: enumerableMembersS_def)

lemma denotes_replacesPrototype:
  "denotes h x j \<Longrightarrow> replacesPrototypeS x = replacesPrototype j"
  by (erule denotes.cases) simp_all

lemma denotes_hasProperty:
  assumes "denotes h x j"
  shows "hasPropertyS h x k = hasProperty j k"
  using denotes_property [OF assms, of k]
  by (cases rule: option.rel_cases) (simp_all add: hasPropertyS_def hasProperty_def)

lemma has_refines: "denotes h x j \<Longrightarrow> hasS h x p = has j p"
proof (induction j p arbitrary: x rule: has.induct)
  case (1 element pointer)
  note rd = denotes_readNext [OF "1.prems", of pointer]
  show ?case
  proof (cases "isFullyRead pointer")
    case True
    then show ?thesis by (simp add: hasS.simps [of _ _ pointer] has.simps [of _ pointer])
  next
    case False
    show ?thesis
    proof (cases "readNextTokenInContext pointer element")
      case (Inl e)
      with False rd show ?thesis
        by (simp add: hasS.simps [of _ _ pointer] has.simps [of _ pointer])
    next
      case (Inr ip)
      obtain i p' where ip: "ip = (i, p')" by (cases ip)
      from denotes_elementAt [OF "1.prems", of i] show ?thesis
      proof (cases rule: option.rel_cases)
        case None
        with False rd Inr ip show ?thesis
          by (simp add: hasS.simps [of _ _ pointer] has.simps [of _ pointer])
      next
        case (Some y d)
        from "1.IH" [OF False Inr [unfolded ip] refl Some(2) Some(3)]
        show ?thesis
          using False rd Inr ip Some
          by (simp add: hasS.simps [of _ _ pointer] has.simps [of _ pointer])
      qed
    qed
  qed
qed

lemma get_refines: "denotes h x j \<Longrightarrow> rel_sum (=) (denotes h) (getS h x p) (get j p)"
proof (induction j p arbitrary: x rule: get.induct)
  case (1 element pointer)
  note rd = denotes_readNext [OF "1.prems", of pointer]
  show ?case
  proof (cases "isFullyRead pointer")
    case True
    then show ?thesis
      using "1.prems" by (simp add: getS.simps [of _ _ pointer] get.simps [of _ pointer])
  next
    case False
    show ?thesis
    proof (cases "readNextTokenInContext pointer element")
      case (Inl e)
      with False rd show ?thesis
        by (simp add: getS.simps [of _ _ pointer] get.simps [of _ pointer])
    next
      case (Inr ip)
      obtain i p' where ip: "ip = (i, p')" by (cases ip)
      from denotes_elementAt [OF "1.prems", of i] show ?thesis
      proof (cases rule: option.rel_cases)
        case None
        with False rd Inr ip show ?thesis
          by (simp add: getS.simps [of _ _ pointer] get.simps [of _ pointer] throw_def)
      next
        case (Some y d)
        from "1.IH" [OF False Inr [unfolded ip] refl Some(2) Some(3)]
        show ?thesis
          using False rd Inr ip Some
          by (simp add: getS.simps [of _ _ pointer] get.simps [of _ pointer])
      qed
    qed
  qed
qed

lemma list_all2_splice:
  assumes "list_all2 R xs js" and "list_all2 R items jitems"
  shows "list_all2 R (splice_js xs n dc items) (splice_js js n dc jitems)"
proof -
  have "length xs = length js"
    using assms(1) by (rule list_all2_lengthD)
  then show ?thesis
    using assms
    by (auto simp: splice_js_def Let_def intro!: list_all2_appendI list_all2_takeI list_all2_dropI)
qed

lemma members_update:
  "list_all2 (\<lambda>m n. fst m = fst n \<and> R (snd m) (snd n)) ms ns \<Longrightarrow> R x j
   \<Longrightarrow> list_all2 (\<lambda>m n. fst m = fst n \<and> R (snd m) (snd n))
         (AList.update k x ms) (AList.update k j ns)"
  by (induction ms ns rule: list_all2_induct) auto

lemma members_delete:
  "list_all2 (\<lambda>m n. fst m = fst n \<and> R (snd m) (snd n)) ms ns
   \<Longrightarrow> list_all2 (\<lambda>m n. fst m = fst n \<and> R (snd m) (snd n))
         (AList.delete k ms) (AList.delete k ns)"
  by (induction ms ns rule: list_all2_induct) (auto simp: AList.delete_eq)

lemma denotes_new_array:
  assumes "list_all2 (denotes h) xs js"
  shows "denotes (writeCell (h @ [c]) (length h) (HArray xs)) (HRef (length h)) (JArray js)"
proof -
  let ?h' = "writeCell (h @ [c]) (length h) (HArray xs)"
  have p: "prefix h ?h'" by (rule alloc_write_frame)
  have "list_all2 (denotes ?h') xs js"
    using assms by (rule list_all2_mono) (rule denotes_mono [OF _ p])
  then show ?thesis
    by (intro denotes.dArray) (simp_all add: writeCell_def)
qed

lemma denotes_new_object:
  assumes "list_all2 (\<lambda>m n. fst m = fst n \<and> denotes h (snd m) (snd n)) ms ns"
  shows "denotes (writeCell (h @ [c]) (length h) (HObject ms)) (HRef (length h)) (JObject ns)"
proof -
  let ?h' = "writeCell (h @ [c]) (length h) (HObject ms)"
  have p: "prefix h ?h'" by (rule alloc_write_frame)
  have "list_all2 (\<lambda>m n. fst m = fst n \<and> denotes ?h' (snd m) (snd n)) ms ns"
    using assms by (rule list_all2_mono) (auto intro: denotes_mono [OF _ p])
  then show ?thesis
    by (intro denotes.dObject) (simp_all add: writeCell_def)
qed

lemma splicedS_refines:
  assumes "denotes h x (JArray js)" and "list_all2 (denotes h) items jitems"
  shows "denotes (snd (splicedS h x (Idx n) dc items)) (fst (splicedS h x (Idx n) dc items))
           (spliced (JArray js) (Idx n) dc jitems)"
proof -
  from denotes_array [OF assms(1)] obtain xs
    where c: "cell h x = Some (HArray xs)" and xs: "list_all2 (denotes h) xs js" by blast
  from denotes_new_array [OF list_all2_splice [OF xs assms(2)]] c show ?thesis
    by (simp add: alloc_def)
qed

lemma denotes_copied_object:
  assumes "list_all2 (\<lambda>m n. fst m = fst n \<and> denotes h (snd m) (snd n)) ms ns"
  shows "denotes (h @ [HObject ms]) (HRef (length h)) (JObject ns)"
  using denotes_new_object [OF assms, of "HObject ms"] by (simp add: writeCell_def)

lemma assignedS_refines:
  assumes "denotes h x j" and "denotes h m jm"
  shows "rel_sum (=) (denotes (snd (assignedS h x (Key k) m))) (fst (assignedS h x (Key k) m))
           (assigned j (Key k) jm)"
proof -
  note ms = denotes_enumerableMembers [OF assms(1)]
  have none: "(map_of (enumerableMembersS h x) k = None) = (map_of (enumerableMembers j) k = None)"
    using members_map_of [OF ms, of k] by (cases rule: option.rel_cases) simp_all
  show ?thesis
  proof (cases "k = ''__proto__'' \<and> map_of (enumerableMembers j) k = None")
    case True
    then have k: "k = ''__proto__''" and nj: "map_of (enumerableMembers j) ''__proto__'' = None"
      by blast+
    with none have ns: "map_of (enumerableMembersS h x) ''__proto__'' = None"
      by simp
    from denotes_copied_object [OF ms] denotes_replacesPrototype [OF assms(2)]
    show ?thesis
      by (simp add: alloc_def Let_def k nj ns)
  next
    case False
    with none denotes_new_object [OF members_update [OF ms assms(2)]]
    show ?thesis
      by (auto simp: alloc_def Let_def)
  qed
qed

lemma deletedS_refines:
  assumes "denotes h x j"
  shows "denotes (snd (deletedS h x (Key k))) (fst (deletedS h x (Key k))) (deleted j (Key k))"
  using denotes_new_object [OF members_delete [OF denotes_enumerableMembers [OF assms]]]
  by (simp add: alloc_def Let_def)

lemma denotes_exceedsLength:
  "denotes h x j \<Longrightarrow> exceedsLengthS i (cell h x) = exceedsLength i j"
  by (induction rule: denotes.induct) (cases i; auto dest: list_all2_lengthD)+


lemma rebuild_spliced:
  assumes "denotes h x j" and "readNextTokenInContext p j = Inr (i, p')"
    and "isArray j" and "list_all2 (denotes h) items jitems"
  shows "denotes (snd (splicedS h x i dc items)) (fst (splicedS h x i dc items))
           (spliced j i dc jitems)"
  using assms(2)
proof (cases rule: readNext_cases)
  case (Array A n)
  from splicedS_refines [OF assms(1) [unfolded Array(1)] assms(4)] show ?thesis
    unfolding Array .
qed (use assms(3) in simp_all)

lemma rebuild_assigned:
  assumes "denotes h x j" and "readNextTokenInContext p j = Inr (i, p')"
    and "\<not> isArray j" and "denotes h m jm"
  shows "rel_sum (=) (denotes (snd (assignedS h x i m))) (fst (assignedS h x i m))
           (assigned j i jm)"
  using assms(2)
proof (cases rule: readNext_cases)
  case (Array A n)
  with assms(3) show ?thesis by simp
next
  case (Object ms k)
  from assignedS_refines [OF assms(1,4)] show ?thesis
    unfolding Object .
next
  case (Prototype k)
  from assignedS_refines [OF assms(1,4)] show ?thesis
    unfolding Prototype .
qed

lemma rebuild_deleted:
  assumes "denotes h x j" and "readNextTokenInContext p j = Inr (i, p')"
    and "\<not> isArray j"
  shows "denotes (snd (deletedS h x i)) (fst (deletedS h x i)) (deleted j i)"
  using assms(2)
proof (cases rule: readNext_cases)
  case (Array A n)
  with assms(3) show ?thesis by simp
next
  case (Object ms k)
  from deletedS_refines [OF assms(1)] show ?thesis
    unfolding Object .
next
  case (Prototype k)
  from deletedS_refines [OF assms(1)] show ?thesis
    unfolding Prototype .
qed

lemma add_refines:
  "denotes h x j \<Longrightarrow> denotes h v jv
   \<Longrightarrow> rel_sum (=) (denotes (snd (addS h x p v))) (fst (addS h x p v)) (add j p jv)"
proof (induction j p jv arbitrary: h x v rule: add.induct)
  case (1 element pointer jv)
  note dx = "1.prems"(1) and dv = "1.prems"(2)
  note rd = denotes_readNext [OF dx, of pointer]
  show ?case
  proof (cases "readNextTokenInContext pointer element")
    case (Inl e)
    with rd show ?thesis
      by (simp add: addS.simps [of _ _ pointer] add.simps [of _ pointer])
  next
    case (Inr ip)
    obtain i p' where ip: "ip = (i, p')" by (cases ip)
    note rdj = Inr [unfolded ip]
    define innerS where "innerS =
      (if isFullyRead p' then (Inr v, h)
       else (case elementAtS h x i of
               None \<Rightarrow> (throw (PathNotObjectOrArray (typeofS None)), h)
             | Some deeperElement \<Rightarrow>
                 if \<not> isArrayS h deeperElement \<and> \<not> isObjectS h deeperElement
                 then (throw (PathNotObjectOrArray (typeofS (Some deeperElement))), h)
                 else addS h deeperElement p' v))"
    define inner where "inner =
      (if isFullyRead p' then Inr jv
       else (case elementAt element i of
               None \<Rightarrow> throw (PathNotObjectOrArray (typeof None))
             | Some deeperElement \<Rightarrow>
                 if \<not> isArray deeperElement \<and> \<not> isObject deeperElement
                 then throw (PathNotObjectOrArray (typeof (Some deeperElement)))
                 else add deeperElement p' jv))"
    have fr: "prefix h (snd innerS)"
      by (auto simp: innerS_def addS_frame split: option.splits)
    have rel: "rel_sum (=) (denotes (snd innerS)) (fst innerS) inner"
    proof (cases "isFullyRead p'")
      case True
      then show ?thesis using dv by (simp add: innerS_def inner_def)
    next
      case False
      from denotes_elementAt [OF dx, of i] show ?thesis
      proof (cases rule: option.rel_cases)
        case None
        with False show ?thesis by (simp add: innerS_def inner_def throw_def)
      next
        case (Some d jd)
        show ?thesis
        proof (cases "\<not> isArray jd \<and> \<not> isObject jd")
          case True
          with False Some denotes_kind [OF Some(3)] show ?thesis
            by (simp add: innerS_def inner_def throw_def)
        next
          case c: False
          from "1.IH" [OF rdj refl False Some(2) c Some(3) dv]
          show ?thesis
            using False Some c denotes_kind [OF Some(3)]
            by (auto simp: innerS_def inner_def)
        qed
      qed
    qed
    have dx': "denotes (snd innerS) x element"
      using dx fr by (rule denotes_mono)
    have unfoldS: "addS h x pointer v =
      (case innerS of
         (Inl e, h') \<Rightarrow> (Inl e, h')
       | (Inr modifiedMember, h') \<Rightarrow>
           if isArrayS h' x then
             (if exceedsLengthS i (cell h' x) then (throw OutOfBounds, h')
              else (case splicedS h' x i 0 [modifiedMember] of
                      (newElement, h'') \<Rightarrow> (Inr newElement, h'')))
           else assignedS h' x i modifiedMember)"
      unfolding innerS_def
      by (subst addS.simps) (simp only: rd rdj sum.case prod.case)
    have unfold: "add element pointer jv =
      (case inner of
         Inl e \<Rightarrow> Inl e
       | Inr modifiedMember \<Rightarrow>
           if isArray element then
             (if exceedsLength i element then throw OutOfBounds
              else Inr (spliced element i 0 [modifiedMember]))
           else assigned element i modifiedMember)"
      unfolding inner_def
      by (subst add.simps) (simp only: rdj sum.case prod.case)
    show ?thesis
    proof (cases inner)
      case (Inl e)
      with rel have "fst innerS = Inl e"
        by (cases "fst innerS") auto
      with Inl show ?thesis
        by (simp add: unfoldS unfold case_prod_beta)
    next
      case (Inr jm)
      with rel obtain m where m: "fst innerS = Inr m" and dm: "denotes (snd innerS) m jm"
        by (cases "fst innerS") auto
      have items: "list_all2 (denotes (snd innerS)) [m] [jm]"
        using dm by simp
      show ?thesis
      proof (cases "isArray element")
        case True
        from rebuild_spliced [OF dx' rdj True items, of 0] show ?thesis
          using True Inr m denotes_kind(1) [OF dx'] denotes_exceedsLength [OF dx', of i]
          by (simp add: unfoldS unfold case_prod_beta throw_def)
      next
        case False
        from rebuild_assigned [OF dx' rdj False dm] show ?thesis
          using False Inr m denotes_kind(1) [OF dx']
          by (simp add: unfoldS unfold case_prod_beta)
      qed
    qed
  qed
qed

lemma replace_refines:
  "denotes h x j \<Longrightarrow> denotes h v jv
   \<Longrightarrow> rel_sum (=) (denotes (snd (replaceS h x p v))) (fst (replaceS h x p v)) (replace j p jv)"
proof (induction j p jv arbitrary: h x v rule: replace.induct)
  case (1 element pointer jv)
  note dx = "1.prems"(1) and dv = "1.prems"(2)
  note rd = denotes_readNext [OF dx, of pointer]
  show ?case
  proof (cases "readNextTokenInContext pointer element")
    case (Inl e)
    with rd show ?thesis
      by (simp add: replaceS.simps [of _ _ pointer] replace.simps [of _ pointer])
  next
    case (Inr ip)
    obtain i p' where ip: "ip = (i, p')" by (cases ip)
    note rdj = Inr [unfolded ip]
    define innerS where "innerS =
      (if isFullyRead p' then (Inr v, h)
       else (case elementAtS h x i of
               None \<Rightarrow> (throw (PathNotObjectOrArray (typeofS None)), h)
             | Some deeperElement \<Rightarrow>
                 if \<not> isArrayS h deeperElement \<and> \<not> isObjectS h deeperElement
                 then (throw (PathNotObjectOrArray (typeofS (Some deeperElement))), h)
                 else replaceS h deeperElement p' v))"
    define inner where "inner =
      (if isFullyRead p' then Inr jv
       else (case elementAt element i of
               None \<Rightarrow> throw (PathNotObjectOrArray (typeof None))
             | Some deeperElement \<Rightarrow>
                 if \<not> isArray deeperElement \<and> \<not> isObject deeperElement
                 then throw (PathNotObjectOrArray (typeof (Some deeperElement)))
                 else replace deeperElement p' jv))"
    have fr: "prefix h (snd innerS)"
      by (auto simp: innerS_def replaceS_frame split: option.splits)
    have rel: "rel_sum (=) (denotes (snd innerS)) (fst innerS) inner"
    proof (cases "isFullyRead p'")
      case True
      then show ?thesis using dv by (simp add: innerS_def inner_def)
    next
      case False
      from denotes_elementAt [OF dx, of i] show ?thesis
      proof (cases rule: option.rel_cases)
        case None
        with False show ?thesis by (simp add: innerS_def inner_def throw_def)
      next
        case (Some d jd)
        show ?thesis
        proof (cases "\<not> isArray jd \<and> \<not> isObject jd")
          case True
          with False Some denotes_kind [OF Some(3)] show ?thesis
            by (simp add: innerS_def inner_def throw_def)
        next
          case c: False
          from "1.IH" [OF rdj refl False Some(2) c Some(3) dv]
          show ?thesis
            using False Some c denotes_kind [OF Some(3)]
            by (auto simp: innerS_def inner_def)
        qed
      qed
    qed
    have dx': "denotes (snd innerS) x element"
      using dx fr by (rule denotes_mono)
    have unfoldS: "replaceS h x pointer v =
      (case innerS of
         (Inl e, h') \<Rightarrow> (Inl e, h')
       | (Inr modifiedMember, h') \<Rightarrow>
           if isArrayS h' x then
             (case splicedS h' x i 1 [modifiedMember] of
                (newElement, h'') \<Rightarrow> (Inr newElement, h''))
           else assignedS h' x i modifiedMember)"
      unfolding innerS_def
      by (subst replaceS.simps) (simp only: rd rdj sum.case prod.case)
    have unfold: "replace element pointer jv =
      (case inner of
         Inl e \<Rightarrow> Inl e
       | Inr modifiedMember \<Rightarrow>
           if isArray element then Inr (spliced element i 1 [modifiedMember])
           else assigned element i modifiedMember)"
      unfolding inner_def
      by (subst replace.simps) (simp only: rdj sum.case prod.case)
    show ?thesis
    proof (cases inner)
      case (Inl e)
      with rel have "fst innerS = Inl e"
        by (cases "fst innerS") auto
      with Inl show ?thesis
        by (simp add: unfoldS unfold case_prod_beta)
    next
      case (Inr jm)
      with rel obtain m where m: "fst innerS = Inr m" and dm: "denotes (snd innerS) m jm"
        by (cases "fst innerS") auto
      have items: "list_all2 (denotes (snd innerS)) [m] [jm]"
        using dm by simp
      show ?thesis
      proof (cases "isArray element")
        case True
        from rebuild_spliced [OF dx' rdj True items, of 1] show ?thesis
          using True Inr m denotes_kind(1) [OF dx'] denotes_exceedsLength [OF dx', of i]
          by (simp add: unfoldS unfold case_prod_beta throw_def)
      next
        case False
        from rebuild_assigned [OF dx' rdj False dm] show ?thesis
          using False Inr m denotes_kind(1) [OF dx']
          by (simp add: unfoldS unfold case_prod_beta)
      qed
    qed
  qed
qed



lemma remove_refines:
  "denotes h x j
   \<Longrightarrow> rel_sum (=) (denotes (snd (removeS h x p))) (fst (removeS h x p)) (remove j p)"
proof (induction j p arbitrary: h x rule: remove.induct)
  case (1 element pointer)
  note dx = "1.prems"
  note rd = denotes_readNext [OF dx, of pointer]
  show ?case
  proof (cases "readNextTokenInContext pointer element")
    case (Inl e)
    with rd show ?thesis
      by (simp add: removeS.simps [of _ _ pointer] remove.simps [of _ pointer])
  next
    case (Inr ip)
    obtain i p' where ip: "ip = (i, p')" by (cases ip)
    note rdj = Inr [unfolded ip]
    show ?thesis
    proof (cases "isFullyRead p'")
      case True
      have unfoldS: "removeS h x pointer =
        (if elementAtS h x i = None then (throw NotFound, h)
         else if isArrayS h x then
           (case splicedS h x i 1 [] of (newElement, h') \<Rightarrow> (Inr newElement, h'))
         else (case deletedS h x i of (newElement, h') \<Rightarrow> (Inr newElement, h')))"
        by (subst removeS.simps) (simp only: rd rdj sum.case prod.case True if_True)
      have unfold: "remove element pointer =
        (if elementAt element i = None then throw NotFound
         else if isArray element then Inr (spliced element i 1 [])
         else Inr (deleted element i))"
        by (subst remove.simps) (simp only: rdj sum.case prod.case True if_True)
      have none: "(elementAtS h x i = None) = (elementAt element i = None)"
        using denotes_elementAt [OF dx, of i] by (cases rule: option.rel_cases) auto
      show ?thesis
      proof (cases "isArray element")
        case a: True
        have "list_all2 (denotes h) [] []" by simp
        from rebuild_spliced [OF dx rdj a this, of 1] show ?thesis
          using a none denotes_kind(1) [OF dx]
          by (simp add: unfoldS unfold case_prod_beta throw_def)
      next
        case a: False
        from rebuild_deleted [OF dx rdj a] show ?thesis
          using a none denotes_kind(1) [OF dx]
          by (simp add: unfoldS unfold case_prod_beta throw_def)
      qed
    next
      case False
      define innerS where "innerS =
        (case elementAtS h x i of
           None \<Rightarrow> (throw (PathNotObjectOrArray (typeofS None)), h)
         | Some deeperElement \<Rightarrow>
             if \<not> isArrayS h deeperElement \<and> \<not> isObjectS h deeperElement
             then (throw (PathNotObjectOrArray (typeofS (Some deeperElement))), h)
             else (case removeS h deeperElement p' of
                     (Inl e, h') \<Rightarrow> (Inl e, h')
                   | (Inr modifiedMember, h') \<Rightarrow>
                       if isArrayS h' x then
                         (case splicedS h' x i 1 [modifiedMember] of
                            (newElement, h'') \<Rightarrow> (Inr newElement, h''))
                       else assignedS h' x i modifiedMember))"
      define inner where "inner =
        (case elementAt element i of
           None \<Rightarrow> throw (PathNotObjectOrArray (typeof None))
         | Some deeperElement \<Rightarrow>
             if \<not> isArray deeperElement \<and> \<not> isObject deeperElement
             then throw (PathNotObjectOrArray (typeof (Some deeperElement)))
             else (case remove deeperElement p' of
                     Inl e \<Rightarrow> Inl e
                   | Inr modifiedMember \<Rightarrow>
                       if isArray element then Inr (spliced element i 1 [modifiedMember])
                       else assigned element i modifiedMember))"
      have unfoldS: "removeS h x pointer = innerS"
        unfolding innerS_def
        by (subst removeS.simps) (simp only: rd rdj sum.case prod.case False if_False)
      have unfold: "remove element pointer = inner"
        unfolding inner_def
        by (subst remove.simps) (simp only: rdj sum.case prod.case False if_False)
      have "rel_sum (=) (denotes (snd innerS)) (fst innerS) inner"
      using denotes_elementAt [OF dx, of i]
      proof (cases rule: option.rel_cases)
        case None
        then show ?thesis by (simp add: innerS_def inner_def throw_def)
      next
        case (Some d jd)
        show ?thesis
        proof (cases "\<not> isArray jd \<and> \<not> isObject jd")
          case True
          with Some denotes_kind [OF Some(3)] show ?thesis
            by (simp add: innerS_def inner_def throw_def)
        next
          case c: False
          note IH = "1.IH" [OF rdj refl False Some(2) c Some(3)]
          have fr: "prefix h (snd (removeS h d p'))"
            by (rule removeS_frame)
          have dx': "denotes (snd (removeS h d p')) x element"
            using dx fr by (rule denotes_mono)
          have step: "innerS =
              (case removeS h d p' of
                 (Inl e, h') \<Rightarrow> (Inl e, h')
               | (Inr modifiedMember, h') \<Rightarrow>
                   if isArrayS h' x then
                     (case splicedS h' x i 1 [modifiedMember] of
                        (newElement, h'') \<Rightarrow> (Inr newElement, h''))
                   else assignedS h' x i modifiedMember)"
            using Some c denotes_kind [OF Some(3)] by (auto simp: innerS_def)
          have stepj: "inner =
              (case remove jd p' of
                 Inl e \<Rightarrow> Inl e
               | Inr modifiedMember \<Rightarrow>
                   if isArray element then Inr (spliced element i 1 [modifiedMember])
                   else assigned element i modifiedMember)"
            using Some c by (auto simp: inner_def)
          show ?thesis
          proof (cases "remove jd p'")
            case (Inl e)
            with IH have "fst (removeS h d p') = Inl e"
              by (cases "fst (removeS h d p')") auto
            with Inl show ?thesis
              by (simp add: step stepj case_prod_beta)
          next
            case (Inr jm)
            with IH obtain m where m: "fst (removeS h d p') = Inr m"
              and dm: "denotes (snd (removeS h d p')) m jm"
              by (cases "fst (removeS h d p')") auto
            have items: "list_all2 (denotes (snd (removeS h d p'))) [m] [jm]"
              using dm by simp
            show ?thesis
            proof (cases "isArray element")
              case True
              from rebuild_spliced [OF dx' rdj True items, of 1] show ?thesis
                using True Inr m denotes_kind(1) [OF dx']
                by (simp add: step stepj case_prod_beta)
            next
              case False
              from rebuild_assigned [OF dx' rdj False dm] show ?thesis
                using False Inr m denotes_kind(1) [OF dx']
                by (simp add: step stepj case_prod_beta)
            qed
          qed
        qed
      qed
      then show ?thesis
        by (simp add: unfoldS unfold)
    qed
  qed
qed

lemma height_element: "j \<in> set js \<Longrightarrow> height j < height (JArray js)"
  by (simp add: less_Suc_eq_le)

lemma height_member: "n \<in> set ns \<Longrightarrow> height (snd n) < height (JObject ns)"
  by (simp add: less_Suc_eq_le)

lemma denotes_functional: "denotes h x j \<Longrightarrow> denotes h x j' \<Longrightarrow> j = j'"
proof (induction arbitrary: j' rule: denotes.induct)
  case (dArray r xs js)
  from dArray.prems dArray.hyps obtain js' where j': "j' = JArray js'"
    and xs': "list_all2 (denotes h) xs js'"
    by (auto elim: denotes.cases)
  have "js = js'"
    using dArray.IH xs'
  proof (induction xs js arbitrary: js' rule: list_all2_induct)
    case Nil
    then show ?case by simp
  next
    case (Cons x xs j js)
    then show ?case by (cases js') auto
  qed
  then show ?case by (simp add: j')
next
  case (dObject r ms ns)
  from dObject.prems dObject.hyps obtain ns' where j': "j' = JObject ns'"
    and ms': "list_all2 (\<lambda>m n. fst m = fst n \<and> denotes h (snd m) (snd n)) ms ns'"
    by (auto elim: denotes.cases)
  have "ns = ns'"
    using dObject.IH ms'
  proof (induction ms ns arbitrary: ns' rule: list_all2_induct)
    case Nil
    then show ?case by simp
  next
    case (Cons m ms n ns)
    then show ?case by (cases ns') (auto simp: prod_eq_iff)
  qed
  then show ?case by (simp add: j')
qed (auto elim: denotes.cases)


lemma list_all2_in_set2:
  "list_all2 P xs ys \<Longrightarrow> y \<in> set ys \<Longrightarrow> \<exists>x\<in>set xs. P x y"
  by (induction xs ys rule: list_all2_induct) auto

lemma denotes_chain:
  "denotes h x j \<Longrightarrow> 1 \<le> k \<Longrightarrow> k \<le> height j
   \<Longrightarrow> \<exists>r j'. r < length h \<and> denotes h (HRef r) j' \<and> height j' = k"
proof (induction rule: denotes.induct)
  case (dArray r xs js)
  have whole: "denotes h (HRef r) (JArray js)"
    using dArray.hyps dArray.IH by (auto intro!: denotes.dArray elim: list_all2_mono)
  show ?case
  proof (cases "k = height (JArray js)")
    case True
    with whole dArray.hyps show ?thesis by blast
  next
    case False
    with dArray.prems have "k \<le> Max (insert 0 (height ` set js))" by simp
    with dArray.prems(1) obtain j where j: "j \<in> set js" and kj: "k \<le> height j"
      by (auto simp: Max_ge_iff)
    from list_all2_in_set2 [OF dArray.IH j] dArray.prems(1) kj show ?thesis by blast
  qed
next
  case (dObject r ms ns)
  have whole: "denotes h (HRef r) (JObject ns)"
    using dObject.hyps dObject.IH by (auto intro!: denotes.dObject elim: list_all2_mono)
  show ?case
  proof (cases "k = height (JObject ns)")
    case True
    with whole dObject.hyps show ?thesis by blast
  next
    case False
    with dObject.prems have "k \<le> Max (insert 0 ((\<lambda>n. height (snd n)) ` set ns))" by simp
    with dObject.prems(1) obtain n where n: "n \<in> set ns" and kn: "k \<le> height (snd n)"
      by (auto simp: Max_ge_iff)
    from list_all2_in_set2 [OF dObject.IH n] dObject.prems(1) kn show ?thesis by blast
  qed
qed auto

lemma height_le_store:
  assumes "denotes h x j"
  shows "height j \<le> length h"
proof -
  have "\<forall>k\<in>{1..height j}. \<exists>r. r < length h \<and> (\<exists>j'. denotes h (HRef r) j' \<and> height j' = k)"
    using denotes_chain [OF assms] by auto
  then obtain f where f: "\<forall>k\<in>{1..height j}.
      f k < length h \<and> (\<exists>j'. denotes h (HRef (f k)) j' \<and> height j' = k)"
    by (rule bchoice [THEN exE])
  have "inj_on f {1..height j}"
  proof (rule inj_onI)
    fix k k' assume "k \<in> {1..height j}" "k' \<in> {1..height j}" "f k = f k'"
    with f obtain a b where "denotes h (HRef (f k)) a" "height a = k"
      "denotes h (HRef (f k)) b" "height b = k'"
      by metis
    with denotes_functional show "k = k'" by blast
  qed
  moreover have "f ` {1..height j} \<subseteq> {..<length h}"
    using f by auto
  ultimately have "card {1..height j} \<le> card {..<length h}"
    by (intro card_inj_on_le) auto
  then show ?thesis by simp
qed


lemma compareArrayLoop_eq:
  "compareArrayLoop array xs = firstFailure (map (\<lambda>(a, x). compare a x) (zip array xs))"
proof (induction array arbitrary: xs)
  case Nil
  then show ?case by (cases xs) simp_all
next
  case (Cons a array)
  then show ?case by (cases xs) (simp_all split: sum.splits)
qed

lemma compareObjectLoop_eq:
  "compareObjectLoop item ms =
     firstFailure (map (\<lambda>(valueKey, x). case property item valueKey of
                          None \<Rightarrow> throw NotEqual
                        | Some a \<Rightarrow> compare a x) ms)"
  by (induction ms) (auto split: sum.splits option.splits simp: throw_def)

text \<open>\<^verbatim>\<open>compareObject\<close> on two objects, with its loops over the enumerable members of the
  compared value as they are written.\<close>

lemma compare_objects:
  assumes "isObject item" and "isObject v"
  shows "compare item v =
     (if length (map fst (enumerableMembers item)) \<noteq> length (map fst (enumerableMembers v))
      then throw DifferentKeyCount
      else (case find (\<lambda>valueKey. \<not> hasProperty item valueKey)
                      (map fst (enumerableMembers v)) of
              Some valueKey \<Rightarrow> throw (LacksKey valueKey)
            | None \<Rightarrow>
                (case find (\<lambda>key. \<not> hasProperty v key) (map fst (enumerableMembers item)) of
                   Some key \<Rightarrow> throw (ExtraKey key)
                 | None \<Rightarrow>
                     firstFailure
                       (map (\<lambda>(valueKey, x). case property item valueKey of
                                                None \<Rightarrow> throw NotEqual
                                              | Some a \<Rightarrow> compare a x)
                            (enumerableMembers v)))))"
  using assms
  by (cases v) (simp_all add: compare.simps compareObjectLoop_eq cong: option.case_cong)

lemma compare_not_object:
  assumes "isObject item" and "\<not> isObject v"
  shows "compare item v = throw TargetObjectValueNot"
  using assms by (cases v) (simp_all add: compare.simps)

lemma denotes_primitive_eq:
  "denotes h a ja \<Longrightarrow> denotes h b jb \<Longrightarrow> \<not> isArray ja \<Longrightarrow> \<not> isObject ja
   \<Longrightarrow> (a = b) = (ja = jb)"
  by (erule denotes.cases; erule denotes.cases; simp)

lemma members_keys:
  "list_all2 (\<lambda>m n. fst m = fst n \<and> R (snd m) (snd n)) ms ns \<Longrightarrow> map fst ms = map fst ns"
  by (induction ms ns rule: list_all2_induct) auto

lemma height_property: "property (JObject ns) k = Some j \<Longrightarrow> height j < height (JObject ns)"
proof (cases "map_of ns k")
  case None
  assume "property (JObject ns) k = Some j"
  with None have "height j = 0"
    by (auto simp: prototypeProperty_def split: if_splits)
  then show ?thesis by simp
next
  case (Some x)
  assume "property (JObject ns) k = Some j"
  with Some have "(k, j) \<in> set ns"
    by (auto dest: map_of_SomeD)
  from height_member [OF this] show ?thesis by simp
qed

lemma compare_refines:
  "denotes h a ja \<Longrightarrow> denotes h b jb \<Longrightarrow> height ja < n \<Longrightarrow> compareS n h a b = compare ja jb"
proof (induction n arbitrary: a ja b jb)
  case 0
  then show ?case by simp
next
  case (Suc n)
  note da = Suc.prems(1) and db = Suc.prems(2)
  note ka = denotes_kind [OF da] and kb = denotes_kind [OF db]
  show ?case
  proof (cases "isObject ja")
    case True
    show ?thesis
    proof (cases "isObject jb")
      case False
      with True ka kb show ?thesis
        by (simp add: compare_not_object)
    next
      case objb: True
      note ms = denotes_enumerableMembers [OF da] and vs = denotes_enumerableMembers [OF db]
      have keys: "map fst (enumerableMembersS h a) = map fst (enumerableMembers ja)"
        "map fst (enumerableMembersS h b) = map fst (enumerableMembers jb)"
        using members_keys [OF ms] members_keys [OF vs] by simp_all
      have props: "(\<lambda>k. \<not> hasPropertyS h a k) = (\<lambda>k. \<not> hasProperty ja k)"
        "(\<lambda>k. \<not> hasPropertyS h b k) = (\<lambda>k. \<not> hasProperty jb k)"
        using denotes_hasProperty [OF da] denotes_hasProperty [OF db] by auto
      have loop: "map (\<lambda>(valueKey, x). case propertyS h a valueKey of
                     None \<Rightarrow> throw NotEqual
                   | Some a' \<Rightarrow> compareS n h a' x) (enumerableMembersS h b)
          = map (\<lambda>(valueKey, x). case property ja valueKey of
                     None \<Rightarrow> throw NotEqual
                   | Some a' \<Rightarrow> compare a' x) (enumerableMembers jb)"
        if same: "length (enumerableMembers ja) = length (enumerableMembers jb)"
      proof (cases ja)
        case (JObject ns)
        have small: "height j < n" if "property ja k = Some j" for j k
        proof -
          from that have "height j < height ja"
            unfolding JObject by (rule height_property)
          with Suc.prems(3) show ?thesis by linarith
        qed
        show ?thesis
          using vs
        proof (induction rule: list_all2_induct)
          case Nil
          then show ?case by simp
        next
          case (Cons v vs' jv jvs')
          obtain k y where v: "v = (k, y)" by (cases v)
          with Cons.hyps(1) obtain jy where jv: "jv = (k, jy)" and y: "denotes h y jy"
            by (cases jv) auto
          have "(case propertyS h a k of None \<Rightarrow> throw NotEqual | Some a' \<Rightarrow> compareS n h a' y)
              = (case property ja k of None \<Rightarrow> throw NotEqual | Some a' \<Rightarrow> compare a' jy)"
            using denotes_property [OF da, of k]
          proof (cases rule: option.rel_cases)
            case None
            then show ?thesis by simp
          next
            case (Some x j)
            with Suc.IH [OF Some(3) y small] show ?thesis by simp
          qed
          with Cons.IH show ?case by (simp add: v jv)
        qed
      next
        case JObjectPrototype
        with same have "enumerableMembers jb = []" by simp
        with vs show ?thesis by simp
      qed (use True in simp_all)
      have lens: "length (enumerableMembersS h a) = length (enumerableMembers ja)"
        "length (enumerableMembersS h b) = length (enumerableMembers jb)"
        using list_all2_lengthD [OF ms] list_all2_lengthD [OF vs] by simp_all
      show ?thesis
        using True objb ka kb loop
        by (simp add: compare_objects keys props lens cong: option.case_cong)
    qed
  next
    case False
    show ?thesis
    proof (cases ja)
      case (JArray js)
      from denotes_array [OF da [unfolded JArray]] obtain xs
        where ca: "cell h a = Some (HArray xs)" and xs: "list_all2 (denotes h) xs js" by blast
      have na: "\<not> isObjectS h a"
        using ka False by simp
      show ?thesis
      proof (cases jb)
        case jb: (JArray jys)
        from denotes_array [OF db [unfolded jb]] obtain ys
          where cb: "cell h b = Some (HArray ys)" and ys: "list_all2 (denotes h) ys jys" by blast
        have small: "height j < n" if "j \<in> set js" for j
        proof -
          have "height (JArray js) < Suc n"
            using Suc.prems(3) unfolding JArray .
          with height_element [OF that] show ?thesis by linarith
        qed
        have "map (\<lambda>(a, x). compareS n h a x) (zip xs ys)
              = map (\<lambda>(a, x). compare a x) (zip js jys)"
          using xs ys small
        proof (induction xs js arbitrary: ys jys rule: list_all2_induct)
          case Nil
          then show ?case by simp
        next
          case (Cons x xs j js)
          show ?case
          proof (cases ys)
            case Nil
            with Cons.prems show ?thesis by simp
          next
            case (Cons y ys')
            with Cons.prems(1) obtain jy jys' where jys: "jys = jy # jys'"
              and y: "denotes h y jy" and ys': "list_all2 (denotes h) ys' jys'"
              by (cases jys) auto
            have "compareS n h x y = compare j jy"
              using Suc.IH [OF Cons.hyps(1) y] Cons.prems(2) by simp
            moreover have "map (\<lambda>(a, x). compareS n h a x) (zip xs ys')
              = map (\<lambda>(a, x). compare a x) (zip js jys')"
              using Cons.IH [OF ys'] Cons.prems(2) by simp
            ultimately show ?thesis
              by (simp add: Cons jys)
          qed
        qed
        then show ?thesis
          using na ca cb list_all2_lengthD [OF xs] list_all2_lengthD [OF ys]
          by (simp add: JArray jb compare.simps compareArrayLoop_eq)
      next
        case JObject
        with db have "\<exists>ms. cell h b = Some (HObject ms)"
          by (auto dest: denotes_object)
        then show ?thesis
          using na ca by (auto simp: JArray JObject compare.simps)
      qed (use na ca db denotes_primitive [OF db] in
            \<open>auto simp: JArray compare.simps elim: denotes.cases\<close>)
    qed (use False ka da db denotes_primitive [OF da] denotes_primitive_eq [OF da db]
          in \<open>auto simp: compare.simps\<close>)
  qed
qed

lemma catchDescribe_refines:
  "rel_sum (=) (denotes (snd r)) (fst r) out
   \<Longrightarrow> rel_sum (=) (denotes (snd (catchDescribeS d r))) (fst (catchDescribeS d r))
         (catchDescribe d out)"
  by (cases "fst r"; cases out) (auto simp: catchDescribeS_def catchDescribe_def)

lemma value_cases:
  assumes "sameOperation h operationS operation"
  obtains (None) "value' operationS = None" "value' operation = None"
  | (Some) v jv where "value' operationS = Some v" "value' operation = Some jv" "denotes h v jv"
  using assms unfolding sameOperation_def
  by (cases "value' operationS"; cases "value' operation") auto

lemma get_cases:
  assumes "denotes h d j"
  obtains (Error) e where "getS h d p = Inl e" "get j p = Inl e"
  | (Value) v jv where "getS h d p = Inr v" "get j p = Inr jv" "denotes h v jv"
  using get_refines [OF assms, of p]
  by (cases "getS h d p"; cases "get j p") auto

lemma walk_cases:
  assumes "rel_sum (=) (denotes (snd r)) (fst r) out"
  obtains (Error) e where "fst r = Inl e" "out = Inl e"
  | (Value) v jv where "fst r = Inr v" "out = Inr jv" "denotes (snd r) v jv"
  using assms by (cases "fst r"; cases out) auto

lemma applyOperation_refines:
  assumes d: "denotes h document j" and s: "sameOperation h operationS operation"
  shows "rel_sum (=) (denotes (snd (applyOperationS h document operationS)))
           (fst (applyOperationS h document operationS)) (applyOperation j operation)"
proof -
  have same: "op operationS = op operation" "path operationS = path operation"
    "from' operationS = from' operation"
    using s by (simp_all add: sameOperation_def)
  consider (add) "op operation = ''add''" | (copy) "op operation = ''copy''"
    | (move) "op operation = ''move''" | (remove) "op operation = ''remove''"
    | (replace) "op operation = ''replace''" | (test) "op operation = ''test''"
    | (other) "op operation \<notin> {''add'', ''copy'', ''move'', ''remove'', ''replace'', ''test''}"
    by blast
  then show ?thesis
  proof cases
    case add
    show ?thesis
      using add same
      apply (simp add: applyOperationS_def applyOperation_def split del: if_split)
      apply (rule catchDescribe_refines)
      using s
      apply (cases rule: value_cases)
       apply (simp add: throw_def)
      apply (auto simp: add_refines [OF d] split: sum.splits)
      done
  next
    case copy
    show ?thesis
      using copy same
      apply (simp add: applyOperationS_def applyOperation_def split del: if_split)
      apply (rule catchDescribe_refines)
      apply (cases "from' operation")
       apply (simp add: throw_def)
      subgoal for f
        apply (cases "Pointer f")
         apply simp
        subgoal for fromPointer
          apply (cases rule: get_cases [OF d, of fromPointer])
           apply simp
          apply (auto simp: add_refines [OF d] split: sum.splits)
          done
        done
      done
  next
    case remove
    show ?thesis
      using remove same
      apply (simp add: applyOperationS_def applyOperation_def split del: if_split)
      apply (rule catchDescribe_refines)
      apply (auto simp: remove_refines [OF d] denotes.dNull split: sum.splits)
      done
  next
    case replace
    show ?thesis
      using replace same
      apply (simp add: applyOperationS_def applyOperation_def split del: if_split)
      apply (rule catchDescribe_refines)
      using s
      apply (cases rule: value_cases)
       apply (simp add: throw_def)
      apply (auto simp: replace_refines [OF d] has_refines [OF d] throw_def split: sum.splits)
      done
  next
    case test
    show ?thesis
      using test same
      apply (simp add: applyOperationS_def applyOperation_def split del: if_split)
      apply (rule catchDescribe_refines)
      using s
      apply (cases rule: value_cases)
       apply (simp add: throw_def)
      subgoal for v jv
        apply (cases "Pointer (path operation)")
         apply simp
        subgoal for pathPointer
          apply (cases rule: get_cases [OF d, of pathPointer])
           apply simp
          subgoal for target jtarget
            using compare_refines [of h v jv target jtarget "Suc (length h)"]
              height_le_store [of h v jv] d
            apply (auto split: sum.splits)
            done
          done
        done
      done
  next
    case move
    show ?thesis
      using move same
      apply (simp add: applyOperationS_def applyOperation_def split del: if_split)
      apply (rule catchDescribe_refines)
      apply (cases "from' operation")
       apply (simp add: throw_def)
      subgoal for f
        apply (cases "f = path operation")
         apply (simp add: d)
        apply (cases "Pointer f")
         apply simp
        subgoal for fromPointer
          apply (cases "Pointer (path operation)")
           apply simp
          subgoal for pathPointer
            apply (cases "isPrefixTo fromPointer pathPointer")
             apply (simp add: throw_def)
            apply (cases rule: get_cases [OF d, of fromPointer])
             apply simp
            subgoal for v jv
              apply (cases "path operation = []")
               apply simp
              apply (frule replace_refines [OF d, of v jv pathPointer])
              apply (erule walk_cases)
               apply (simp add: case_prod_beta)
              subgoal for document' jdocument'
                apply (cases "isPrefixTo pathPointer fromPointer")
                 apply (simp add: case_prod_beta)
                apply (frule remove_refines [of _ document' jdocument' "rewind fromPointer"])
                apply (simp add: case_prod_beta)
                done
              done
            done
          done
        done
      done
  next
    case other
    then show ?thesis
      using same by (simp add: applyOperationS_def applyOperation_def throw_def)
  qed
qed

lemma sameOperation_mono:
  "sameOperation h operationS operation \<Longrightarrow> prefix h h' \<Longrightarrow> sameOperation h' operationS operation"
  unfolding sameOperation_def
  by (auto elim!: option.rel_mono_strong intro: denotes_mono)

text \<open>
  The two embeddings agree. When the store holds the document and the values of the
  operations, a patch applied on the store fails exactly when the patch applied to the
  document fails, with the same failure, and otherwise returns a value that denotes
  the document returned.
\<close>

theorem applyPatchS_refines:
  "list_all2 (sameOperation h) patchS patch \<Longrightarrow> denotes h document j
   \<Longrightarrow> rel_sum (=) (denotes (snd (applyPatchS h document patchS)))
         (fst (applyPatchS h document patchS)) (applyPatch j patch)"
proof (induction patchS arbitrary: patch h document j)
  case Nil
  then show ?case by simp
next
  case (Cons operationS patchS)
  from Cons.prems(1) obtain operation rest where patch: "patch = operation # rest"
    and same: "sameOperation h operationS operation"
    and sames: "list_all2 (sameOperation h) patchS rest"
    by (auto simp: list_all2_Cons1)
  let ?step = "applyOperationS h document operationS"
  have fr: "prefix h (snd ?step)"
    by (rule applyOperationS_frame)
  have "sameOperation (snd ?step) x y" if "sameOperation h x y" for x y
    using that fr by (rule sameOperation_mono)
  with sames have rest: "list_all2 (sameOperation (snd ?step)) patchS rest"
    by (auto elim: list_all2_mono)
  from applyOperation_refines [OF Cons.prems(2) same] show ?case
  proof (cases rule: walk_cases)
    case (Error e)
    then show ?thesis by (simp add: patch case_prod_beta)
  next
    case (Value document' j')
    from Cons.IH [OF rest Value(3)] Value(1,2) show ?thesis
      by (simp add: patch case_prod_beta)
  qed
qed

section \<open>Atomicity\<close>



section \<open>Move\<close>

lemma has_False_get: "has element p = Inr False \<Longrightarrow> get element p = throw NotFound"
proof (induction element p rule: has.induct)
  case (1 element pointer)
  show ?case
    using "1.prems" "1.IH"
    by (subst get.simps, subst (asm) has.simps) (auto split: if_splits sum.splits option.splits)
qed

text \<open>
  C6, as the code has it. A \<^verbatim>\<open>move\<close> fails with \<^verbatim>\<open>move failed: pointer does not lead
  anywhere\<close> when its \<^verbatim>\<open>from\<close> differs from its \<^verbatim>\<open>path\<close>, both are well-formed pointers,
  \<^verbatim>\<open>from\<close> is not a prefix of \<^verbatim>\<open>path\<close>, and the walk along \<^verbatim>\<open>from\<close> ends at an array
  that has no element at the position read there, or at an object that neither has nor
  inherits a property of the key read there (\<open>has\<close> returns false).
\<close>

theorem move_missing_source_not_found:
  assumes "F \<noteq> T"
    and "Pointer F = Inr fromPointer"
    and "Pointer T = Inr pathPointer"
    and "\<not> isPrefixTo fromPointer pathPointer"
    and "has document fromPointer = Inr False"
  shows "applyPatch document [\<lparr>op = ''move'', path = T, from' = Some F, value' = v\<rparr>]
         = Inl (JsonPatchError [''move failed''] NotFound)"
  using assms has_False_get [OF assms(5)]
  by (simp add: applyOperation_def catchDescribe_def throw_def describe_def)

theorem move_missing_source_not_found_witness:
  "''/b'' \<noteq> ''/c''
   \<and> Pointer ''/b'' = Inr \<lparr>tokenStrings = [''b''], nextTokenIndex = 0\<rparr>
   \<and> Pointer ''/c'' = Inr \<lparr>tokenStrings = [''c''], nextTokenIndex = 0\<rparr>
   \<and> isPrefixTo \<lparr>tokenStrings = [''b''], nextTokenIndex = 0\<rparr>
         \<lparr>tokenStrings = [''c''], nextTokenIndex = 0\<rparr> = False
   \<and> has (JObject [(''a'', JNumber 1)]) \<lparr>tokenStrings = [''b''], nextTokenIndex = 0\<rparr> = Inr False
   \<and> applyPatch (JObject [(''a'', JNumber 1)])
        [\<lparr>op = ''move'', path = ''/c'', from' = Some ''/b'', value' = None\<rparr>]
       = Inl (JsonPatchError [''move failed''] NotFound)"
proof -
  have a: "''/b'' \<noteq> ''/c''" by simp
  have b: "Pointer ''/b'' = Inr \<lparr>tokenStrings = [''b''], nextTokenIndex = 0\<rparr>" by code_simp
  have c: "Pointer ''/c'' = Inr \<lparr>tokenStrings = [''c''], nextTokenIndex = 0\<rparr>" by code_simp
  have d: "\<not> isPrefixTo \<lparr>tokenStrings = [''b''], nextTokenIndex = 0\<rparr>
              \<lparr>tokenStrings = [''c''], nextTokenIndex = 0\<rparr>" by code_simp
  have e: "has (JObject [(''a'', JNumber 1)]) \<lparr>tokenStrings = [''b''], nextTokenIndex = 0\<rparr>
           = Inr False" by code_simp
  from move_missing_source_not_found [OF a b c d e, of None] a b c d e
  show ?thesis by simp
qed

text \<open>
  The claim as stated fails in four ways on the document \<^verbatim>\<open>{"a": 1}\<close>, each time with a
  \<^verbatim>\<open>from\<close> that resolves to nothing: a move onto itself is a no-op and succeeds; a
  \<^verbatim>\<open>from\<close> that is a prefix of \<^verbatim>\<open>path\<close> is refused before it is looked up; a malformed
  \<^verbatim>\<open>path\<close> is refused before \<^verbatim>\<open>from\<close> is looked up; and a \<^verbatim>\<open>from\<close> that walks into a
  number fails with the resolver's failure.
\<close>

theorem move_missing_source_counterexample:
  "has (JObject [(''a'', JNumber 1)]) \<lparr>tokenStrings = [''b''], nextTokenIndex = 0\<rparr> = Inr False
   \<and> applyPatch (JObject [(''a'', JNumber 1)])
        [\<lparr>op = ''move'', path = ''/b'', from' = Some ''/b'', value' = None\<rparr>]
       = Inr (JObject [(''a'', JNumber 1)])
   \<and> applyPatch (JObject [(''a'', JNumber 1)])
        [\<lparr>op = ''move'', path = ''/b/c'', from' = Some ''/b'', value' = None\<rparr>]
       = Inl (JsonPatchError [''move failed''] InvalidPrefixMove)
   \<and> applyPatch (JObject [(''a'', JNumber 1)])
        [\<lparr>op = ''move'', path = ''c'', from' = Some ''/b'', value' = None\<rparr>]
       = Inl (JsonPatchError [''move failed''] InvalidPointer)
   \<and> applyPatch (JObject [(''a'', JNumber 1)])
        [\<lparr>op = ''move'', path = ''/c'', from' = Some ''/a/b'', value' = None\<rparr>]
       = Inl (JsonPatchError [''move failed''] (TokenContext ''number''))"
  by code_simp

text \<open>
  A token that names a property the document inherits names something for the engine.
  In \<^verbatim>\<open>{"a": 1}\<close> the location \<^verbatim>\<open>/constructor\<close> exists and holds a function, so a \<^verbatim>\<open>move\<close>
  from it succeeds: the function becomes a member, and the \<^verbatim>\<open>remove\<close> that follows
  deletes nothing. \<^verbatim>\<open>/__proto__\<close> is \<^verbatim>\<open>Object.prototype\<close>, whose own \<^verbatim>\<open>__proto__\<close> is
  \<^verbatim>\<open>null\<close>. An \<^verbatim>\<open>add\<close> of a number at \<^verbatim>\<open>/__proto__\<close> returns a copy of the document; an
  \<^verbatim>\<open>add\<close> below \<^verbatim>\<open>/__proto__\<close> gives the copy a prototype of its own.
\<close>

lemma inherited_properties:
  "has (JObject [(''a'', JNumber 1)]) \<lparr>tokenStrings = [''constructor''], nextTokenIndex = 0\<rparr>
     = Inr True
   \<and> applyPatch (JObject [(''a'', JNumber 1)])
        [\<lparr>op = ''move'', path = ''/c'', from' = Some ''/constructor'', value' = None\<rparr>]
       = Inr (JObject [(''a'', JNumber 1), (''c'', JFunction ''constructor'')])
   \<and> get (JObject [(''a'', JNumber 1)]) \<lparr>tokenStrings = [''__proto__''], nextTokenIndex = 0\<rparr>
       = Inr JObjectPrototype
   \<and> get (JObject [(''a'', JNumber 1)])
        \<lparr>tokenStrings = [''__proto__'', ''__proto__''], nextTokenIndex = 0\<rparr> = Inr JNull
   \<and> has (JObject [(''a'', JNumber 1)])
        \<lparr>tokenStrings = [''__proto__'', ''x''], nextTokenIndex = 0\<rparr> = Inr False
   \<and> applyPatch (JObject [(''a'', JNumber 1)])
        [\<lparr>op = ''remove'', path = ''/toString'', from' = None, value' = None\<rparr>]
       = Inr (JObject [(''a'', JNumber 1)])
   \<and> applyPatch (JObject [(''a'', JNumber 1)])
        [\<lparr>op = ''add'', path = ''/__proto__'', from' = None, value' = Some (JNumber 5)\<rparr>]
       = Inr (JObject [(''a'', JNumber 1)])
   \<and> applyPatch (JObject [(''a'', JNumber 1)])
        [\<lparr>op = ''add'', path = ''/__proto__/x'', from' = None, value' = Some (JNumber 5)\<rparr>]
       = Inl PrototypeReplaced
   \<and> applyPatch (JObject [(''__proto__'', JObject [])])
        [\<lparr>op = ''add'', path = ''/__proto__/x'', from' = None, value' = Some (JNumber 5)\<rparr>]
       = Inr (JObject [(''__proto__'', JObject [(''x'', JNumber 5)])])
   \<and> applyPatch (JObject [(''a'', JNumber 1)])
        [\<lparr>op = ''test'', path = ''/constructor'', from' = None,
          value' = Some (JObject [(''toString'', JNumber 1)])\<rparr>]
       = Inl (JsonPatchError [''test failed''] TargetObjectValueNot)
   \<and> compare (JObject [(''toString'', JNumber 1)]) (JObject [(''valueOf'', JNumber 1)])
       = Inl (JsonPatchError [] NotEqual)"
  by code_simp

text \<open>
  C2, at the input where the code departs from it. In the array \<^verbatim>\<open>["a","b","c"]\<close>,
  \<^verbatim>\<open>/0\<close> is not a prefix of \<^verbatim>\<open>/1\<close>. The move overwrites the element at \<^verbatim>\<open>/1\<close> and then
  removes the one at \<^verbatim>\<open>/0\<close>, which loses \<^verbatim>\<open>"b"\<close>; removing \<^verbatim>\<open>/0\<close> and then adding the
  value at \<^verbatim>\<open>/1\<close> keeps it.
\<close>

theorem move_in_array_differs_from_remove_add:
  "isPrefixTo \<lparr>tokenStrings = [''0''], nextTokenIndex = 0\<rparr>
     \<lparr>tokenStrings = [''1''], nextTokenIndex = 0\<rparr> = False
   \<and> get (JArray [JString ''a'', JString ''b'', JString ''c''])
        \<lparr>tokenStrings = [''0''], nextTokenIndex = 0\<rparr> = Inr (JString ''a'')
   \<and> applyPatch (JArray [JString ''a'', JString ''b'', JString ''c''])
        [\<lparr>op = ''move'', path = ''/1'', from' = Some ''/0'', value' = None\<rparr>]
       = Inr (JArray [JString ''a'', JString ''c''])
   \<and> applyPatch (JArray [JString ''a'', JString ''b'', JString ''c''])
        [\<lparr>op = ''remove'', path = ''/0'', from' = None, value' = None\<rparr>,
         \<lparr>op = ''add'', path = ''/1'', from' = None, value' = Some (JString ''a'')\<rparr>]
       = Inr (JArray [JString ''b'', JString ''a'', JString ''c''])"
  by code_simp

section \<open>Tokens\<close>

text \<open>
  C3, at the input where the code departs from it. Against an array the token \<^verbatim>\<open>01\<close>
  is accepted as the index 1, and so are \<^verbatim>\<open>+1\<close>, a token with white space around the
  digits, \<^verbatim>\<open>1.0\<close> and \<^verbatim>\<open>1e0\<close>: the check compares the parsed number with the token by
  \<^verbatim>\<open>!=\<close>, which converts the token to a number. A \<^verbatim>\<open>remove\<close> at \<^verbatim>\<open>/01\<close> removes the
  element at position 1.
\<close>

theorem noncanonical_index_accepted:
  "parseTokenString ''01'' (JArray [JString ''a'', JString ''b'']) = Inr (Idx 1)
   \<and> parseTokenString ''+1'' (JArray [JString ''a'', JString ''b'']) = Inr (Idx 1)
   \<and> parseTokenString '' 1 '' (JArray [JString ''a'', JString ''b'']) = Inr (Idx 1)
   \<and> parseTokenString ''1.0'' (JArray [JString ''a'', JString ''b'']) = Inr (Idx 1)
   \<and> parseTokenString ''1e0'' (JArray [JString ''a'', JString ''b'']) = Inr (Idx 1)
   \<and> applyPatch (JArray [JString ''a'', JString ''b''])
        [\<lparr>op = ''remove'', path = ''/01'', from' = None, value' = None\<rparr>]
       = Inr (JArray [JString ''a''])"
  by code_simp

text \<open>
  C4, at the input where the code departs from it. Only the first \<^verbatim>\<open>~1\<close> and the first
  \<^verbatim>\<open>~0\<close> of a token are replaced: against an object the token \<^verbatim>\<open>a~1b~1c\<close> is the key
  \<^verbatim>\<open>a/b~1c\<close>, not \<^verbatim>\<open>a/b/c\<close>, and a \<^verbatim>\<open>remove\<close> at \<^verbatim>\<open>/a~1b~1c\<close> does not find the member
  \<^verbatim>\<open>a/b/c\<close>. The three pointers the claim names decode as it says.
\<close>

theorem unescape_first_occurrence_only:
  "parseTokenString ''a~1b~1c'' (JObject [(''a/b/c'', JNumber 1)]) = Inr (Key ''a/b~1c'')
   \<and> parseTokenString ''~0~0'' (JObject [(''a/b/c'', JNumber 1)]) = Inr (Key ''~~0'')
   \<and> applyPatch (JObject [(''a/b/c'', JNumber 1)])
        [\<lparr>op = ''remove'', path = ''/a~1b~1c'', from' = None, value' = None\<rparr>]
       = Inl (JsonPatchError [''remove failed''] NotFound)
   \<and> parseTokenString ''~0'' (JObject []) = Inr (Key ''~'')
   \<and> parseTokenString ''~1'' (JObject []) = Inr (Key ''/'')
   \<and> parseTokenString ''~0~1'' (JObject []) = Inr (Key ''~/'')"
  by code_simp

section \<open>Locations\<close>

subsection \<open>A pointer and its parent\<close>

lemma child_simps [simp]:
  "tokenStrings (child q t) = tokenStrings q @ [t]"
  "nextTokenIndex (child q t) = nextTokenIndex q"
  by (simp_all add: child_def)

lemma isFullyRead_child:
  "nextTokenIndex q \<le> length (tokenStrings q) \<Longrightarrow> \<not> isFullyRead (child q t)"
  by (simp add: isFullyRead_def tokensLeft_def)

lemma readNext_cursor:
  assumes "readNextTokenInContext q element = Inr (i, q')"
  shows "nextTokenIndex q' \<le> length (tokenStrings q')" and "tokenStrings q' = tokenStrings q"
  using readNext_Inr [OF assms] by simp_all

lemma readNext_child:
  assumes "readNextTokenInContext q element = Inr (i, q')"
  shows "readNextTokenInContext (child q t) element = Inr (i, child q' t)"
  using readNext_Inr [OF assms]
  by (simp add: readNextTokenInContext_def nth_append child_def)

lemma child_atLast:
  "isFullyRead q \<Longrightarrow> nextTokenIndex q \<le> length (tokenStrings q) \<Longrightarrow> child q t = atLast q t"
  by (simp add: isFullyRead_def tokensLeft_def child_def atLast_def)

lemma readNext_atLast:
  "readNextTokenInContext (atLast q t) element =
     (case parseTokenString t element of
        Inl e \<Rightarrow> Inl e
      | Inr i \<Rightarrow> Inr (i, \<lparr>tokenStrings = tokenStrings q @ [t],
                         nextTokenIndex = Suc (length (tokenStrings q))\<rparr>))"
  by (simp add: readNextTokenInContext_def atLast_def split: sum.splits)

lemma fully_read_after_last:
  "isFullyRead \<lparr>tokenStrings = tokenStrings q @ [t], nextTokenIndex = Suc (length (tokenStrings q))\<rparr>"
  by (simp add: isFullyRead_def tokensLeft_def)

lemma not_fully_read_atLast: "\<not> isFullyRead (atLast q t)"
  by (simp add: isFullyRead_def tokensLeft_def atLast_def)

subsection \<open>What a pointer can reach\<close>

text \<open>Nothing lies below a value that is neither an array nor an object, and what an
  object inherits holds no array and no object of the document.\<close>

lemma get_leaf: "\<not> isArray d \<Longrightarrow> \<not> isObject d \<Longrightarrow> get d q = Inr r \<Longrightarrow> r = d"
  by (subst (asm) get.simps, cases d)
     (auto simp: readNextTokenInContext_def throw_def split: if_splits)

lemma get_prototype:
  assumes "get JObjectPrototype q = Inr r"
  shows "\<not> isArray r \<and> (isObject r \<longrightarrow> r = JObjectPrototype)"
proof (cases "isFullyRead q")
  case True
  with assms show ?thesis by (simp add: get_fully_read)
next
  case False
  with assms obtain k q' d where "prototypeProperty JNull k = Some d" and g: "get d q' = Inr r"
    by (subst (asm) get.simps)
       (auto simp: throw_def split: sum.splits option.splits elim!: readNext_cases)
  then have "\<not> isArray d \<and> \<not> isObject d"
    by (auto simp: prototypeProperty_def split: if_splits)
  with get_leaf [OF _ _ g] show ?thesis by auto
qed

lemma get_inherited:
  assumes "prototypeProperty JObjectPrototype k = Some d" and "get d q = Inr r"
  shows "\<not> isArray r \<and> (isObject r \<longrightarrow> r = JObjectPrototype)"
proof (cases "d = JObjectPrototype")
  case True
  with assms(2) show ?thesis by (simp add: get_prototype)
next
  case False
  with assms(1) have "\<not> isArray d \<and> \<not> isObject d"
    by (auto simp: prototypeProperty_def split: if_splits)
  with get_leaf [OF _ _ assms(2)] show ?thesis by auto
qed

text \<open>One step of a walk that ends at an array or an object of the document: the
  token names an element the array has or a member the object has.\<close>

lemma walk_step:
  assumes "get element q = Inr C" and "isArray C \<or> isObject C" and "C \<noteq> JObjectPrototype"
    and "\<not> isFullyRead q"
  obtains (Array) xs n q' where "element = JArray xs"
      "readNextTokenInContext q element = Inr (Idx n, q')"
      "0 \<le> n" "n < int (length xs)" "get (xs ! nat n) q' = Inr C"
  | (Object) ms k q' d where "element = JObject ms"
      "readNextTokenInContext q element = Inr (Key k, q')"
      "map_of ms k = Some d" "get d q' = Inr C"
proof -
  from assms(1,4) obtain i q' d where rd: "readNextTokenInContext q element = Inr (i, q')"
    and ea: "elementAt element i = Some d" and g: "get d q' = Inr C"
    by (subst (asm) get.simps) (auto simp: throw_def split: sum.splits option.splits)
  from rd show ?thesis
  proof (cases rule: readNext_cases)
    case (Array A n)
    with ea have "0 \<le> n" "n < int (length A)" "d = A ! nat n"
      by (auto split: if_splits)
    with Array rd g show ?thesis by (intro that(1)) auto
  next
    case (Object ms k)
    show ?thesis
    proof (cases "map_of ms k")
      case None
      with ea Object have "prototypeProperty JObjectPrototype k = Some d" by simp
      from get_inherited [OF this g] assms(2,3) show ?thesis by auto
    next
      case (Some x)
      with ea Object have "x = d" by simp
      with Some Object rd g show ?thesis by (intro that(2)) auto
    qed
  next
    case (Prototype k)
    with ea have "prototypeProperty JNull k = Some d" by simp
    then have "\<not> isArray d \<and> \<not> isObject d"
      by (auto simp: prototypeProperty_def split: if_splits)
    with get_leaf [OF _ _ g] assms(2) show ?thesis by auto
  qed
qed

lemma get_container: "get d q = Inr C \<Longrightarrow> isArray C \<or> isObject C \<Longrightarrow> isArray d \<or> isObject d"
  using get_leaf [of d q C] by auto

lemma readNext_array_defined:
  assumes "readNextTokenInContext p (JArray A) = Inr (Idx n, p')" and "n < int (length A)"
  shows "readNextTokenInContext p (JArray B) = Inr (Idx n, p')"
  using assms
  by (auto simp: readNextTokenInContext_def throw_def split: if_splits option.splits sum.splits)

lemma splice_insert_nth:
  "0 \<le> n \<Longrightarrow> n < int (length xs) \<Longrightarrow>
     splice_js xs n 0 [m] = take (nat n) xs @ m # drop (nat n) xs"
  by (simp add: splice_js_def Let_def)

lemma splice_replace_nth:
  "0 \<le> n \<Longrightarrow> n < int (length xs) \<Longrightarrow> splice_js xs n (Suc 0) [m] = xs[nat n := m]"
  by (simp add: splice_js_def Let_def upd_conv_take_nth_drop)

subsection \<open>Walking to the parent and acting at the last token\<close>

text \<open>Where the parent of a location is an array or an object of the document, \<open>has\<close>
  at the location is \<open>has\<close> at the last token against the parent.\<close>

lemma has_at_child:
  assumes "get element q = Inr C" and "isArray C \<or> isObject C" and "C \<noteq> JObjectPrototype"
    and "nextTokenIndex q \<le> length (tokenStrings q)"
  shows "has element (child q t) = has C (atLast q t)"
  using assms
proof (induction element q rule: get.induct)
  case (1 element q)
  show ?case
  proof (cases "isFullyRead q")
    case True
    with "1.prems" show ?thesis
      by (simp add: get_fully_read child_atLast)
  next
    case False
    note nfr = isFullyRead_child [OF "1.prems"(4), of t]
    from "1.prems"(1,2,3) False show ?thesis
    proof (cases rule: walk_step)
      case (Array xs n q')
      have ea: "elementAt element (Idx n) = Some (xs ! nat n)"
        using Array by simp
      have "has (xs ! nat n) (child q' t) = has C (atLast q' t)"
        using "1.IH" [OF False Array(2) refl ea Array(5) "1.prems"(2,3)] readNext_cursor [OF Array(2)]
        by simp
      moreover have "atLast q' t = atLast q t"
        using readNext_cursor [OF Array(2)] by (simp add: atLast_def)
      ultimately show ?thesis
        using nfr readNext_child [OF Array(2), of t] ea
        by (subst has.simps) simp
    next
      case (Object ms k q' d)
      have ea: "elementAt element (Key k) = Some d"
        using Object by simp
      have "has d (child q' t) = has C (atLast q' t)"
        using "1.IH" [OF False Object(2) refl ea Object(4) "1.prems"(2,3)] readNext_cursor [OF Object(2)]
        by simp
      moreover have "atLast q' t = atLast q t"
        using readNext_cursor [OF Object(2)] by (simp add: atLast_def)
      ultimately show ?thesis
        using nfr readNext_child [OF Object(2), of t] ea
        by (subst has.simps) simp
    qed
  qed
qed

text \<open>\<open>add\<close> at a location whose parent is an array or an object of the document: it
  fails as the \<open>add\<close> at the last token against the parent fails, and otherwise it
  returns a document that holds, where the parent was, what that \<open>add\<close> returned. When
  the walk to the parent has crossed objects only, nothing else in the document has
  changed.\<close>

lemma add_at_child:
  assumes "get element q = Inr C" and "isArray C \<or> isObject C" and "C \<noteq> JObjectPrototype"
    and "nextTokenIndex q \<le> length (tokenStrings q)"
  shows "(\<forall>e. add C (atLast q t) v = Inl e \<longrightarrow> add element (child q t) v = Inl e)
       \<and> (\<forall>C'. add C (atLast q t) v = Inr C' \<longrightarrow>
            (\<exists>D'. add element (child q t) v = Inr D' \<and> get D' q = Inr C'
                 \<and> (objectsAlong element q \<longrightarrow> D' = withValueAt element q C')))"
  using assms
proof (induction element q rule: get.induct)
  case (1 element q)
  show ?case
  proof (cases "isFullyRead q")
    case True
    with "1.prems" have "element = C" "child q t = atLast q t"
      by (simp_all add: get_fully_read child_atLast)
    moreover have "get C' q = Inr C'" "withValueAt element q C' = C'" for C'
      using True by (simp_all add: get_fully_read withValueAt.simps)
    ultimately show ?thesis by simp
  next
    case False
    from "1.prems"(1,2,3) False show ?thesis
    proof (cases rule: walk_step)
      case (Array xs n q')
      let ?d = "xs ! nat n"
      have ea: "elementAt element (Idx n) = Some ?d"
        using Array by simp
      note cur = readNext_cursor [OF Array(2)]
      have at: "atLast q' t = atLast q t"
        using cur by (simp add: atLast_def)
      note IH = "1.IH" [OF False Array(2) refl ea Array(5) "1.prems"(2,3) cur(1), unfolded at]
      have cont: "(\<not> isArray ?d \<and> \<not> isObject ?d) = False"
        using get_container [OF Array(5) "1.prems"(2)] by simp
      have step: "add element (child q t) v =
          (case add ?d (child q' t) v of
             Inl e \<Rightarrow> Inl e
           | Inr m \<Rightarrow> Inr (JArray (splice_js xs n 0 [m])))"
      proof -
        have el: "isArray element" "\<not> exceedsLength (Idx n) element"
          "spliced element (Idx n) 0 [m] = JArray (splice_js xs n 0 [m])" for m
          using Array(1,4) by simp_all
        show ?thesis
          using isFullyRead_child [OF cur(1), of t]
          by (subst add.simps)
             (simp add: readNext_child [OF Array(2)] ea el cont split: sum.splits
                del: elementAt.simps spliced.simps exceedsLength.simps)
      qed
      have reread: "get (JArray (splice_js xs n 0 [m])) q = get m q'" for m
        using Array(3,4) False
        by (subst get.simps)
           (simp add: readNext_array_defined [OF Array(2) [unfolded Array(1)] Array(4)]
              splice_insert_nth nth_append)
      have noobj: "\<not> objectsAlong element q"
        using False unfolding Array(1) by (subst objectsAlong.simps) simp
      show ?thesis
        using IH noobj by (auto simp: step reread)
    next
      case (Object ms k q' d)
      have ea: "elementAt element (Key k) = Some d"
        using Object by simp
      note cur = readNext_cursor [OF Object(2)]
      have at: "atLast q' t = atLast q t"
        using cur by (simp add: atLast_def)
      note IH = "1.IH" [OF False Object(2) refl ea Object(4) "1.prems"(2,3) cur(1), unfolded at]
      have cont: "(\<not> isArray d \<and> \<not> isObject d) = False"
        using get_container [OF Object(4) "1.prems"(2)] by simp
      have step: "add element (child q t) v =
          (case add d (child q' t) v of
             Inl e \<Rightarrow> Inl e
           | Inr m \<Rightarrow> Inr (JObject (AList.update k m ms)))"
      proof -
        have el: "\<not> isArray element"
          "assigned element (Key k) m = Inr (JObject (AList.update k m ms))" for m
          using Object(1,3) by simp_all
        show ?thesis
          using isFullyRead_child [OF cur(1), of t]
          by (subst add.simps)
             (simp add: readNext_child [OF Object(2)] ea el cont split: sum.splits
                del: elementAt.simps assigned.simps)
      qed
      have rd: "readNextTokenInContext q (JObject (AList.update k m ms)) = Inr (Key k, q')" for m
        using Object(2) readNext_object [of q "AList.update k m ms" ms] unfolding Object(1) by simp
      have reread: "get (JObject (AList.update k m ms)) q = get m q'" for m
        using False by (subst get.simps) (simp add: rd update_conv')
      have deeper: "objectsAlong d q'" if "objectsAlong element q"
        using that False Object(2) ea by (subst (asm) objectsAlong.simps) simp
      have put: "withValueAt element q C' = JObject (AList.update k (withValueAt d q' C') ms)" for C'
        using False Object(2,3) unfolding Object(1) by (subst withValueAt.simps) simp
      show ?thesis
        using IH deeper by (auto simp: step reread put)
    qed
  qed
qed

text \<open>\<open>remove\<close> at a location whose parent is an array or an object of the document: it
  fails as the \<open>remove\<close> at the last token against the parent fails, and otherwise it
  returns the document with the parent replaced by what that \<open>remove\<close> returned.\<close>

lemma remove_at_child:
  assumes "get element q = Inr C" and "isArray C \<or> isObject C" and "C \<noteq> JObjectPrototype"
    and "nextTokenIndex q \<le> length (tokenStrings q)"
  shows "remove element (child q t) =
           (case remove C (atLast q t) of
              Inl e \<Rightarrow> Inl e
            | Inr C' \<Rightarrow> Inr (withValueAt element q C'))"
  using assms
proof (induction element q rule: get.induct)
  case (1 element q)
  show ?case
  proof (cases "isFullyRead q")
    case True
    with "1.prems" have "element = C" "child q t = atLast q t"
      by (simp_all add: get_fully_read child_atLast)
    moreover have "withValueAt element q C' = C'" for C'
      using True by (simp add: withValueAt.simps)
    ultimately show ?thesis by (simp split: sum.splits)
  next
    case False
    from "1.prems"(1,2,3) False show ?thesis
    proof (cases rule: walk_step)
      case (Array xs n q')
      let ?d = "xs ! nat n"
      have ea: "elementAt element (Idx n) = Some ?d"
        using Array by simp
      note cur = readNext_cursor [OF Array(2)]
      have at: "atLast q' t = atLast q t"
        using cur by (simp add: atLast_def)
      note IH = "1.IH" [OF False Array(2) refl ea Array(5) "1.prems"(2,3) cur(1), unfolded at]
      have cont: "(\<not> isArray ?d \<and> \<not> isObject ?d) = False"
        using get_container [OF Array(5) "1.prems"(2)] by simp
      have el: "isArray element" "spliced element (Idx n) (Suc 0) [m] = JArray (xs[nat n := m])" for m
        using Array(1,3,4) by (simp_all add: splice_replace_nth)
      have step: "remove element (child q t) =
          (case remove ?d (child q' t) of
             Inl e \<Rightarrow> Inl e
           | Inr m \<Rightarrow> Inr (JArray (xs[nat n := m])))"
        using isFullyRead_child [OF cur(1), of t]
        by (subst remove.simps)
           (simp add: readNext_child [OF Array(2)] ea el cont split: sum.splits
              del: elementAt.simps spliced.simps)
      have put: "withValueAt element q C' = JArray (xs[nat n := withValueAt ?d q' C'])" for C'
        using False Array(2,3,4) unfolding Array(1) by (subst withValueAt.simps) simp
      show ?thesis
        by (simp add: step IH put split: sum.splits)
    next
      case (Object ms k q' d)
      have ea: "elementAt element (Key k) = Some d"
        using Object by simp
      note cur = readNext_cursor [OF Object(2)]
      have at: "atLast q' t = atLast q t"
        using cur by (simp add: atLast_def)
      note IH = "1.IH" [OF False Object(2) refl ea Object(4) "1.prems"(2,3) cur(1), unfolded at]
      have cont: "(\<not> isArray d \<and> \<not> isObject d) = False"
        using get_container [OF Object(4) "1.prems"(2)] by simp
      have el: "\<not> isArray element"
        "assigned element (Key k) m = Inr (JObject (AList.update k m ms))" for m
        using Object(1,3) by simp_all
      have step: "remove element (child q t) =
          (case remove d (child q' t) of
             Inl e \<Rightarrow> Inl e
           | Inr m \<Rightarrow> Inr (JObject (AList.update k m ms)))"
        using isFullyRead_child [OF cur(1), of t]
        by (subst remove.simps)
           (simp add: readNext_child [OF Object(2)] ea el cont split: sum.splits
              del: elementAt.simps assigned.simps)
      have put: "withValueAt element q C' = JObject (AList.update k (withValueAt d q' C') ms)" for C'
        using False Object(2,3) unfolding Object(1) by (subst withValueAt.simps) simp
      show ?thesis
        by (simp add: step IH put split: sum.splits)
    qed
  qed
qed

subsection \<open>Replacing the value at a location\<close>

lemma withValueAt_same:
  assumes "get element q = Inr C" and "isArray C \<or> isObject C" and "C \<noteq> JObjectPrototype"
  shows "withValueAt element q C = element"
  using assms
proof (induction element q rule: get.induct)
  case (1 element q)
  show ?case
  proof (cases "isFullyRead q")
    case True
    with "1.prems" show ?thesis
      by (simp add: get_fully_read withValueAt.simps)
  next
    case False
    from "1.prems"(1,2,3) False show ?thesis
    proof (cases rule: walk_step)
      case (Array xs n q')
      have ea: "elementAt element (Idx n) = Some (xs ! nat n)"
        using Array by simp
      note IH = "1.IH" [OF False Array(2) refl ea Array(5) "1.prems"(2,3)]
      show ?thesis
        using False Array(2,3,4) IH unfolding Array(1)
        by (subst withValueAt.simps) simp
    next
      case (Object ms k q' d)
      have ea: "elementAt element (Key k) = Some d"
        using Object by simp
      note IH = "1.IH" [OF False Object(2) refl ea Object(4) "1.prems"(2,3)]
      show ?thesis
        using False Object(2,3) IH unfolding Object(1)
        by (subst withValueAt.simps) (simp add: update_triv)
    qed
  qed
qed

lemma withValueAt_twice:
  assumes "get element q = Inr C" and "isArray C \<or> isObject C" and "C \<noteq> JObjectPrototype"
  shows "withValueAt (withValueAt element q C1) q C2 = withValueAt element q C2"
  using assms
proof (induction element q rule: get.induct)
  case (1 element q)
  show ?case
  proof (cases "isFullyRead q")
    case True
    then show ?thesis
      by (simp add: withValueAt.simps)
  next
    case False
    from "1.prems"(1,2,3) False show ?thesis
    proof (cases rule: walk_step)
      case (Array xs n q')
      have ea: "elementAt element (Idx n) = Some (xs ! nat n)"
        using Array by simp
      note IH = "1.IH" [OF False Array(2) refl ea Array(5) "1.prems"(2,3)]
      have put: "withValueAt element q C' = JArray (xs[nat n := withValueAt (xs ! nat n) q' C'])"
        for C'
        using False Array(2,3,4) unfolding Array(1) by (subst withValueAt.simps) simp
      have rd: "readNextTokenInContext q (JArray ys) = Inr (Idx n, q')" for ys
        using readNext_array_defined [OF Array(2) [unfolded Array(1)] Array(4)] .
      have put': "withValueAt (JArray (xs[nat n := w])) q C'
          = JArray (xs[nat n := withValueAt w q' C'])" for w C'
        using False Array(3,4) by (subst withValueAt.simps) (simp add: rd)
      show ?thesis
        by (simp add: put put' IH)
    next
      case (Object ms k q' d)
      have ea: "elementAt element (Key k) = Some d"
        using Object by simp
      note IH = "1.IH" [OF False Object(2) refl ea Object(4) "1.prems"(2,3)]
      have put: "withValueAt element q C' = JObject (AList.update k (withValueAt d q' C') ms)" for C'
        using False Object(2,3) unfolding Object(1) by (subst withValueAt.simps) simp
      have rd: "readNextTokenInContext q (JObject ns) = Inr (Key k, q')" for ns
        using Object(2) readNext_object [of q ns ms] unfolding Object(1) by simp
      have put': "withValueAt (JObject (AList.update k w ms)) q C'
          = JObject (AList.update k (withValueAt w q' C') ms)" for w C'
        using False by (subst withValueAt.simps) (simp add: rd update_conv')
      show ?thesis
        by (simp add: put put' IH)
    qed
  qed
qed

lemma withValueAt_get:
  assumes "get element q = Inr C" and "isArray C \<or> isObject C" and "C \<noteq> JObjectPrototype"
  shows "get (withValueAt element q C1) q = Inr C1"
  using assms
proof (induction element q rule: get.induct)
  case (1 element q)
  show ?case
  proof (cases "isFullyRead q")
    case True
    then show ?thesis
      by (simp add: withValueAt.simps get_fully_read)
  next
    case False
    from "1.prems"(1,2,3) False show ?thesis
    proof (cases rule: walk_step)
      case (Array xs n q')
      have ea: "elementAt element (Idx n) = Some (xs ! nat n)"
        using Array by simp
      note IH = "1.IH" [OF False Array(2) refl ea Array(5) "1.prems"(2,3)]
      have put: "withValueAt element q C1 = JArray (xs[nat n := withValueAt (xs ! nat n) q' C1])"
        using False Array(2,3,4) unfolding Array(1) by (subst withValueAt.simps) simp
      have rd: "readNextTokenInContext q (JArray ys) = Inr (Idx n, q')" for ys
        using readNext_array_defined [OF Array(2) [unfolded Array(1)] Array(4)] .
      show ?thesis
        using False Array(3,4) IH by (subst get.simps) (simp add: put rd)
    next
      case (Object ms k q' d)
      have ea: "elementAt element (Key k) = Some d"
        using Object by simp
      note IH = "1.IH" [OF False Object(2) refl ea Object(4) "1.prems"(2,3)]
      have put: "withValueAt element q C1 = JObject (AList.update k (withValueAt d q' C1) ms)"
        using False Object(2,3) unfolding Object(1) by (subst withValueAt.simps) simp
      have rd: "readNextTokenInContext q (JObject ns) = Inr (Key k, q')" for ns
        using Object(2) readNext_object [of q ns ms] unfolding Object(1) by simp
      show ?thesis
        using False IH by (subst get.simps) (simp add: put rd update_conv')
    qed
  qed
qed

section \<open>Array indices\<close>

lemma isDigit_facts:
  "isDigit c \<Longrightarrow> \<not> isWhiteSpace c \<and> c \<noteq> CHR ''-'' \<and> c \<noteq> CHR ''+'' \<and> c \<noteq> CHR ''.''
     \<and> c \<noteq> CHR ''x'' \<and> c \<noteq> CHR ''X'' \<and> c \<noteq> CHR ''o'' \<and> c \<noteq> CHR ''O''
     \<and> c \<noteq> CHR ''b'' \<and> c \<noteq> CHR ''B'' \<and> c \<noteq> CHR ''I''"
  by (auto simp: isDigit_def isWhiteSpace_def)

lemma digitChar_facts: "d < 10 \<Longrightarrow> isDigit (digitChar d) \<and> digitValue (digitChar d) = d"
proof -
  assume "d < 10"
  then have "d = 0 \<or> d = 1 \<or> d = 2 \<or> d = 3 \<or> d = 4 \<or> d = 5 \<or> d = 6 \<or> d = 7 \<or> d = 8 \<or> d = 9"
    by arith
  then show ?thesis
    by (elim disjE) (simp_all add: digitChar_def isDigit_def digitValue_def)
qed

lemma digitsValue_snoc: "digitsValue b (ds @ [c]) = b * digitsValue b ds + digitValue c"
  by (simp add: digitsValue_def)

lemma renderNat_digits: "list_all isDigit (renderNat n) \<and> renderNat n \<noteq> []"
  by (induction n rule: renderNat.induct) (subst renderNat.simps, simp add: digitChar_facts)+

lemma digitsValue_renderNat: "digitsValue 10 (renderNat n) = n"
proof (induction n rule: renderNat.induct)
  case (1 n)
  show ?case
  proof (cases "n < 10")
    case True
    then show ?thesis
      by (subst renderNat.simps) (simp add: digitsValue_def digitChar_facts)
  next
    case False
    with 1 show ?thesis
      by (subst renderNat.simps) (simp add: digitsValue_snoc digitChar_facts)
  qed
qed

lemma digits_head:
  assumes "list_all isDigit s" and "s \<noteq> []"
  shows "dropWhile isWhiteSpace s = s" and "\<not> prefix ''-'' s" and "\<not> prefix ''+'' s"
    and "s \<noteq> ''Infinity''" and "s \<noteq> ''-''"
    and "takeWhile isDigit s = s" and "dropWhile isDigit s = []"
proof -
  from assms obtain c cs where s: "s = c # cs" and c: "isDigit c"
    by (cases s) auto
  show "dropWhile isWhiteSpace s = s" "\<not> prefix ''-'' s" "\<not> prefix ''+'' s"
    "s \<noteq> ''Infinity''" "s \<noteq> ''-''"
    using s isDigit_facts [OF c] by auto
  show "takeWhile isDigit s = s" "dropWhile isDigit s = []"
    using assms(1) by (simp_all add: takeWhile_eq_all_conv list_all_iff)
qed

lemma digits_parseInt:
  assumes "list_all isDigit s" and "s \<noteq> []"
  shows "parseInt s = Some (int (digitsValue 10 s))"
  using assms(2) by (simp add: parseInt_def digits_head [OF assms] Let_def)

lemma digits_stringToNumber:
  assumes "list_all isDigit s" and "s \<noteq> []"
  shows "stringToNumber s = Finite (of_nat (digitsValue 10 s))"
proof -
  have l: "isDigit (last s)"
    using assms by (simp add: list_all_iff)
  have "dropWhile isWhiteSpace (rev s) = rev s"
    using l assms(2) isDigit_facts [OF l] by (cases "rev s") (auto simp: last_rev hd_rev)
  then have tr: "trim s = s"
    by (simp add: trim_def digits_head [OF assms])
  have nd: "nonDecimalLiteral s = None"
  proof (cases "length s < 3 \<or> hd s \<noteq> CHR ''0''")
    case True
    then show ?thesis by (auto simp: nonDecimalLiteral_def)
  next
    case False
    then have "s ! 1 \<in> set s" by (intro nth_mem) simp
    then have "isDigit (s ! 1)" using assms(1) by (simp add: list_all_iff)
    from isDigit_facts [OF this] show ?thesis
      by (simp add: nonDecimalLiteral_def Let_def)
  qed
  have u: "unsignedDecimal s = Finite (of_nat (digitsValue 10 s))"
    using assms(2)
    by (simp add: unsignedDecimal_def digits_head [OF assms] Let_def exponentPart_def scale10_def)
  show ?thesis
    using assms(2) by (simp add: stringToNumber_def tr nd u digits_head [OF assms] Let_def)
qed

lemma digits_parseTokenString:
  assumes "list_all isDigit s" and "s \<noteq> []"
  shows "parseTokenString s (JArray xs) = Inr (Idx (int (digitsValue 10 s)))"
  by (simp add: digits_head [OF assms] digits_parseInt [OF assms]
      digits_stringToNumber [OF assms] looseNotEqual_def)

lemma renderNat_parseTokenString:
  "parseTokenString (renderNat n) (JArray xs) = Inr (Idx (int n))"
  using digits_parseTokenString [of "renderNat n" xs] renderNat_digits [of n]
  by (simp add: digitsValue_renderNat)

lemma renderNat_no_slash: "CHR ''/'' \<notin> set (renderNat n)"
proof
  assume "CHR ''/'' \<in> set (renderNat n)"
  with renderNat_digits [of n] have "isDigit (CHR ''/'')"
    by (simp add: list_all_iff)
  then show False by (simp add: isDigit_def)
qed

section \<open>The pointer of a member\<close>

lemma split_nonempty: "split c s \<noteq> []"
  by (induction s) (auto split: list.splits)

lemma split_append: "split c (xs @ c # ys) = split c xs @ split c ys"
proof (induction xs)
  case Nil
  show ?case by simp
next
  case (Cons x xs)
  then show ?case
    using split_nonempty [of c xs] by (cases "split c xs") auto
qed

lemma split_no_separator: "c \<notin> set s \<Longrightarrow> split c s = [s]"
  by (induction s) auto

text \<open>The pointer of \<^verbatim>\<open>Q/t\<close> is the pointer of \<^verbatim>\<open>Q\<close> with the token \<^verbatim>\<open>t\<close> at its end.\<close>

lemma Pointer_child:
  assumes "Pointer Q = Inr q" and "CHR ''/'' \<notin> set t"
  shows "Pointer (Q @ CHR ''/'' # t) = Inr (child q t)" and "nextTokenIndex q = 0"
proof -
  from assms(1) have ok: "Q = [] \<or> hd Q = CHR ''/''"
    and q: "q = \<lparr>tokenStrings = drop 1 (split (CHR ''/'') Q), nextTokenIndex = 0\<rparr>"
    by (auto simp: Pointer_def validatePath_def throw_def split: if_splits)
  show "nextTokenIndex q = 0"
    by (simp add: q)
  have "hd (Q @ CHR ''/'' # t) = CHR ''/''"
    using ok by (cases Q) auto
  then have "validatePath (Q @ CHR ''/'' # t) = Inr ()"
    by (simp add: validatePath_def)
  moreover have "drop 1 (split (CHR ''/'') (Q @ CHR ''/'' # t))
      = drop 1 (split (CHR ''/'') Q) @ [t]"
    using split_nonempty [of "CHR ''/''" Q]
    by (cases "split (CHR ''/'') Q") (simp_all add: split_append split_no_separator assms(2))
  ultimately show "Pointer (Q @ CHR ''/'' # t) = Inr (child q t)"
    by (simp add: Pointer_def q child_def)
qed

section \<open>Acting at the last token\<close>

lemma has_atLast:
  "has C (atLast q t) =
     (case parseTokenString t C of
        Inl e \<Rightarrow> Inl e
      | Inr i \<Rightarrow> Inr (elementAt C i \<noteq> None))"
  by (subst has.simps)
     (simp add: not_fully_read_atLast readNext_atLast has_fully_read fully_read_after_last
        split: sum.splits option.splits del: elementAt.simps)

lemma add_atLast:
  "add C (atLast q t) v =
     (case parseTokenString t C of
        Inl e \<Rightarrow> Inl e
      | Inr i \<Rightarrow>
          if isArray C then
            (if exceedsLength i C then throw OutOfBounds else Inr (spliced C i 0 [v]))
          else assigned C i v)"
  by (subst add.simps)
     (simp add: readNext_atLast fully_read_after_last split: sum.splits
        del: elementAt.simps assigned.simps spliced.simps exceedsLength.simps)

lemma remove_atLast:
  "remove C (atLast q t) =
     (case parseTokenString t C of
        Inl e \<Rightarrow> Inl e
      | Inr i \<Rightarrow>
          if elementAt C i = None then throw NotFound
          else if isArray C then Inr (spliced C i 1 [])
          else Inr (deleted C i))"
  by (subst remove.simps)
     (simp add: readNext_atLast fully_read_after_last split: sum.splits
        del: elementAt.simps deleted.simps spliced.simps)

lemma splice_insert: "i \<le> length A \<Longrightarrow> splice_js A (int i) 0 [v] = take i A @ v # drop i A"
  by (simp add: splice_js_def)

section \<open>Add into an array\<close>

text \<open>What an \<^verbatim>\<open>add\<close> operation returns when the parent of its path is an array \<open>A\<close> of
  the document and the last token decodes to the position \<open>n\<close>.\<close>

lemma add_operation_array:
  assumes "Pointer Q = Inr q" and "get D q = Inr (JArray A)" and "CHR ''/'' \<notin> set t"
    and "parseTokenString t (JArray A) = Inr (Idx n)"
  shows "int (length A) < n \<longrightarrow>
           applyPatch D [\<lparr>op = ''add'', path = Q @ CHR ''/'' # t, from' = f, value' = Some v\<rparr>]
           = Inl (JsonPatchError [''add failed''] OutOfBounds)"
    and "n \<le> int (length A) \<longrightarrow>
           (\<exists>D'. applyPatch D
                    [\<lparr>op = ''add'', path = Q @ CHR ''/'' # t, from' = f, value' = Some v\<rparr>]
                  = Inr D'
                \<and> get D' q = Inr (JArray (splice_js A n 0 [v]))
                \<and> (objectsAlong D q \<longrightarrow> D' = withValueAt D q (JArray (splice_js A n 0 [v]))))"
proof -
  note p = Pointer_child [OF assms(1,3)]
  have last: "add (JArray A) (atLast q t) v =
      (if int (length A) < n then throw OutOfBounds else Inr (JArray (splice_js A n 0 [v])))"
    by (simp only: add_atLast assms(4) sum.case) simp
  have walk: "(\<forall>e. add (JArray A) (atLast q t) v = Inl e \<longrightarrow> add D (child q t) v = Inl e)
       \<and> (\<forall>C'. add (JArray A) (atLast q t) v = Inr C' \<longrightarrow>
            (\<exists>D'. add D (child q t) v = Inr D' \<and> get D' q = Inr C'
                 \<and> (objectsAlong D q \<longrightarrow> D' = withValueAt D q C')))"
    by (rule add_at_child [OF assms(2)]) (simp_all add: p(2))
  have run: "applyOperation D
        \<lparr>op = ''add'', path = Q @ CHR ''/'' # t, from' = f, value' = Some v\<rparr>
      = catchDescribe ''add failed'' (add D (child q t) v)"
    by (simp add: applyOperation_def p(1))
  show "int (length A) < n \<longrightarrow>
           applyPatch D [\<lparr>op = ''add'', path = Q @ CHR ''/'' # t, from' = f, value' = Some v\<rparr>]
           = Inl (JsonPatchError [''add failed''] OutOfBounds)"
    using walk by (auto simp: run last catchDescribe_def throw_def describe_def)
  show "n \<le> int (length A) \<longrightarrow>
           (\<exists>D'. applyPatch D
                    [\<lparr>op = ''add'', path = Q @ CHR ''/'' # t, from' = f, value' = Some v\<rparr>]
                  = Inr D'
                \<and> get D' q = Inr (JArray (splice_js A n 0 [v]))
                \<and> (objectsAlong D q \<longrightarrow> D' = withValueAt D q (JArray (splice_js A n 0 [v]))))"
    using walk by (auto simp: run last catchDescribe_def)
qed

text \<open>
  C7. Adding into an array. Let the path of an \<^verbatim>\<open>add\<close> operation be \<^verbatim>\<open>Q/t\<close>, where the
  pointer \<^verbatim>\<open>Q\<close> (the empty path for the document itself) leads to an array \<open>A\<close> of the
  document. With the token \<^verbatim>\<open>-\<close> the operation succeeds and the document it returns
  holds at \<^verbatim>\<open>Q\<close> the array \<open>A\<close> with the value appended. With the decimal numeral of
  \<open>i \<le> length A\<close> it succeeds and the document it returns holds at \<^verbatim>\<open>Q\<close> the array \<open>A\<close>
  with the value inserted before position \<open>i\<close>, the elements from \<open>i\<close> on moved one
  place to the right. With the numeral of an \<open>i\<close> beyond the length it fails with
  \<^verbatim>\<open>add failed: pointer points to an index that is out-of-bounds\<close>. Where the walk to
  \<open>A\<close> crosses objects only, the document returned is the document with \<open>A\<close> replaced,
  and nothing else changed. \<^verbatim>\<open>applyPatch([1,2], [{op:"add", path:"/4", value:"d"}])\<close>
  fails with that error.
\<close>

theorem add_into_array:
  assumes "Pointer Q = Inr q" and "get D q = Inr (JArray A)"
  shows "(\<exists>D'. applyPatch D [\<lparr>op = ''add'', path = Q @ ''/-'', from' = f, value' = Some v\<rparr>]
               = Inr D'
             \<and> get D' q = Inr (JArray (A @ [v]))
             \<and> (objectsAlong D q \<longrightarrow> D' = withValueAt D q (JArray (A @ [v]))))
       \<and> (i \<le> length A \<longrightarrow>
            (\<exists>D'. applyPatch D
                     [\<lparr>op = ''add'', path = Q @ CHR ''/'' # renderNat i, from' = f,
                       value' = Some v\<rparr>]
                   = Inr D'
                 \<and> get D' q = Inr (JArray (take i A @ v # drop i A))
                 \<and> (objectsAlong D q \<longrightarrow>
                      D' = withValueAt D q (JArray (take i A @ v # drop i A)))))
       \<and> (length A < i \<longrightarrow>
            applyPatch D
              [\<lparr>op = ''add'', path = Q @ CHR ''/'' # renderNat i, from' = f, value' = Some v\<rparr>]
            = Inl (JsonPatchError [''add failed''] OutOfBounds))
       \<and> applyPatch (JArray [JNumber 1, JNumber 2])
            [\<lparr>op = ''add'', path = ''/4'', from' = None, value' = Some (JString ''d'')\<rparr>]
            = Inl (JsonPatchError [''add failed''] OutOfBounds)"
proof -
  have dash: "parseTokenString ''-'' (JArray A) = Inr (Idx (int (length A)))"
    by simp
  have "CHR ''/'' \<notin> set ''-''"
    by simp
  from add_operation_array(2) [OF assms this dash, of f v]
  have append: "\<exists>D'. applyPatch D [\<lparr>op = ''add'', path = Q @ ''/-'', from' = f, value' = Some v\<rparr>]
               = Inr D'
             \<and> get D' q = Inr (JArray (A @ [v]))
             \<and> (objectsAlong D q \<longrightarrow> D' = withValueAt D q (JArray (A @ [v])))"
    by (simp add: splice_js_def)
  note numeral = add_operation_array [OF assms renderNat_no_slash renderNat_parseTokenString,
      of i f v]
  have inside: "\<exists>D'. applyPatch D
                     [\<lparr>op = ''add'', path = Q @ CHR ''/'' # renderNat i, from' = f,
                       value' = Some v\<rparr>]
                   = Inr D'
                 \<and> get D' q = Inr (JArray (take i A @ v # drop i A))
                 \<and> (objectsAlong D q \<longrightarrow>
                      D' = withValueAt D q (JArray (take i A @ v # drop i A)))"
    if "i \<le> length A"
    using numeral(2) that by (simp add: splice_insert)
  have beyond: "applyPatch D
              [\<lparr>op = ''add'', path = Q @ CHR ''/'' # renderNat i, from' = f, value' = Some v\<rparr>]
            = Inl (JsonPatchError [''add failed''] OutOfBounds)"
    if "length A < i"
    using numeral(1) that by simp
  have ex: "applyPatch (JArray [JNumber 1, JNumber 2])
            [\<lparr>op = ''add'', path = ''/4'', from' = None, value' = Some (JString ''d'')\<rparr>]
            = Inl (JsonPatchError [''add failed''] OutOfBounds)"
    by code_simp
  show ?thesis
    using append inside beyond ex by blast
qed

theorem add_into_array_witness:
  "Pointer ''/letters'' = Inr \<lparr>tokenStrings = [''letters''], nextTokenIndex = 0\<rparr>
   \<and> get (JObject [(''letters'', JArray [JString ''a'', JString ''b'', JString ''d''])])
         \<lparr>tokenStrings = [''letters''], nextTokenIndex = 0\<rparr>
       = Inr (JArray [JString ''a'', JString ''b'', JString ''d''])
   \<and> applyPatch (JObject [(''letters'', JArray [JString ''a'', JString ''b'', JString ''d''])])
        [\<lparr>op = ''add'', path = ''/letters/2'', from' = None, value' = Some (JString ''c'')\<rparr>]
       = Inr (JObject [(''letters'',
                        JArray [JString ''a'', JString ''b'', JString ''c'', JString ''d''])])
   \<and> applyPatch (JObject [(''letters'', JArray [JString ''a'', JString ''b'', JString ''d''])])
        [\<lparr>op = ''add'', path = ''/letters/-'', from' = None, value' = Some (JString ''c'')\<rparr>]
       = Inr (JObject [(''letters'',
                        JArray [JString ''a'', JString ''b'', JString ''d'', JString ''c''])])
   \<and> applyPatch (JObject [(''letters'', JArray [JString ''a'', JString ''b'', JString ''d''])])
        [\<lparr>op = ''add'', path = ''/letters/4'', from' = None, value' = Some (JString ''c'')\<rparr>]
       = Inl (JsonPatchError [''add failed''] OutOfBounds)"
proof -
  let ?D = "JObject [(''letters'', JArray [JString ''a'', JString ''b'', JString ''d''])]"
  let ?q = "\<lparr>tokenStrings = [''letters''], nextTokenIndex = 0\<rparr>"
  have a: "Pointer ''/letters'' = Inr ?q"
    by code_simp
  have b: "get ?D ?q = Inr (JArray [JString ''a'', JString ''b'', JString ''d''])"
    by code_simp
  have r: "renderNat 2 = ''2''" "renderNat 4 = ''4''"
    by (simp_all add: renderNat.simps digitChar_def)
  have o: "objectsAlong ?D ?q"
    by code_simp
  have w: "withValueAt ?D ?q (JArray [JString ''a'', JString ''b'', JString ''c'', JString ''d''])
           = JObject [(''letters'',
                       JArray [JString ''a'', JString ''b'', JString ''c'', JString ''d''])]"
    "withValueAt ?D ?q (JArray [JString ''a'', JString ''b'', JString ''d'', JString ''c''])
           = JObject [(''letters'',
                       JArray [JString ''a'', JString ''b'', JString ''d'', JString ''c''])]"
    by code_simp+
  from add_into_array [OF a b, of None "JString ''c''" 2]
    add_into_array [OF a b, of None "JString ''c''" 4] a b
  show ?thesis
    by (auto simp: r o w)
qed

section \<open>Add, then remove\<close>

text \<open>At the last token, against an object that neither has nor inherits the key.\<close>

lemma round_trip_object:
  assumes "property (JObject ms) k = None"
    and "parseTokenString t (JObject ms) = Inr (Key k)"
  shows "has (JObject ms) (atLast q t) = Inr False"
    and "add (JObject ms) (atLast q t) v = Inr (JObject (AList.update k v ms))"
    and "remove (JObject (AList.update k v ms)) (atLast q t) = Inr (JObject ms)"
proof -
  from assms(1) have none: "map_of ms k = None" and k: "k \<noteq> ''__proto__''"
    by (auto simp: prototypeProperty_def split: option.splits if_splits)
  have parse: "parseTokenString t (JObject ns) = Inr (Key k)" for ns
    using assms(2) by simp
  show "has (JObject ms) (atLast q t) = Inr False"
    using assms(1) by (simp only: has_atLast parse sum.case) simp
  show "add (JObject ms) (atLast q t) v = Inr (JObject (AList.update k v ms))"
    using k by (simp only: add_atLast parse sum.case) simp
  have "AList.delete k (AList.update k v ms) = ms"
    using none by (simp add: delete_update_same map_of_eq_None_iff)
  then show "remove (JObject (AList.update k v ms)) (atLast q t) = Inr (JObject ms)"
    by (simp only: remove_atLast parse sum.case) (simp add: update_conv')
qed

text \<open>At the last token, against an array, with a token other than \<^verbatim>\<open>-\<close> that decodes to
  the position past the last element. The decimal numeral of the length is such a
  token.\<close>

lemma round_trip_array:
  assumes "t \<noteq> ''-''" and "parseTokenString t (JArray A) = Inr (Idx (int (length A)))"
  shows "has (JArray A) (atLast q t) = Inr False"
    and "add (JArray A) (atLast q t) v = Inr (JArray (A @ [v]))"
    and "remove (JArray (A @ [v])) (atLast q t) = Inr (JArray A)"
proof -
  have parse: "parseTokenString t (JArray B) = Inr (Idx (int (length A)))" for B
    using assms by simp
  show "has (JArray A) (atLast q t) = Inr False"
    by (simp only: has_atLast parse sum.case) simp
  show "add (JArray A) (atLast q t) v = Inr (JArray (A @ [v]))"
    by (simp only: add_atLast parse sum.case) (simp add: splice_js_def)
  show "remove (JArray (A @ [v])) (atLast q t) = Inr (JArray A)"
    by (simp only: remove_atLast parse sum.case) (simp add: splice_js_def)
qed

lemma numeral_of_length:
  "renderNat (length A) \<noteq> ''-''
   \<and> parseTokenString (renderNat (length A)) (JArray A) = Inr (Idx (int (length A)))"
proof
  have "isDigit (hd (renderNat (length A)))"
    using renderNat_digits [of "length A"] by (cases "renderNat (length A)") simp_all
  then show "renderNat (length A) \<noteq> ''-''"
    by (auto simp: isDigit_def)
  show "parseTokenString (renderNat (length A)) (JArray A) = Inr (Idx (int (length A)))"
    by (rule renderNat_parseTokenString)
qed

text \<open>The round trip below the parent. When at the last token the \<open>add\<close> turns the
  parent \<open>C\<close> into \<open>C'\<close> and the \<open>remove\<close> turns \<open>C'\<close> back into \<open>C\<close>, the \<open>remove\<close>
  succeeds on the document the \<open>add\<close> returned and puts \<open>C\<close> back where it was; when the
  walk to the parent crosses objects only, it returns the document the \<open>add\<close> was
  given.\<close>

lemma round_trip_walk:
  assumes g: "get D q = Inr C"
    and cur: "nextTokenIndex q \<le> length (tokenStrings q)"
    and C: "isArray C \<or> isObject C" "C \<noteq> JObjectPrototype"
    and C': "isArray C' \<or> isObject C'" "C' \<noteq> JObjectPrototype"
    and h: "has C (atLast q t) = Inr False"
    and a: "add C (atLast q t) v = Inr C'"
    and r: "remove C' (atLast q t) = Inr C"
  shows "has D (child q t) = Inr False
       \<and> (\<exists>D' D''. add D (child q t) v = Inr D' \<and> remove D' (child q t) = Inr D''
              \<and> get D'' q = Inr C \<and> (objectsAlong D q \<longrightarrow> D'' = D))"
proof -
  from add_at_child [OF g C cur, of t v] a
  obtain D' where ad: "add D (child q t) v = Inr D'" and g': "get D' q = Inr C'"
    and D': "objectsAlong D q \<longrightarrow> D' = withValueAt D q C'"
    by auto
  have rm: "remove D' (child q t) = Inr (withValueAt D' q C)"
    by (simp add: remove_at_child [OF g' C' cur] r)
  have "get (withValueAt D' q C) q = Inr C"
    using g' C' by (rule withValueAt_get)
  moreover have "withValueAt D' q C = D" if "objectsAlong D q"
    using that D' by (simp add: withValueAt_twice [OF g C] withValueAt_same [OF g C])
  ultimately show ?thesis
    using ad rm has_at_child [OF g C cur, of t] h by auto
qed

text \<open>
  C5, as the code has it. Let the pointer \<^verbatim>\<open>Q\<close> lead to an object or an array \<open>C\<close> of
  the document, and let the token \<^verbatim>\<open>t\<close> be a key that the object \<open>C\<close> neither has nor
  inherits, or a token other than \<^verbatim>\<open>-\<close> that decodes to the position past the last
  element of the array \<open>C\<close>, as the decimal numeral of its length does. Then \<^verbatim>\<open>Q/t\<close>
  names nothing in the document (\<open>has\<close> returns false), the \<^verbatim>\<open>add\<close> of a value at
  \<^verbatim>\<open>Q/t\<close> succeeds, and the \<^verbatim>\<open>remove\<close> at \<^verbatim>\<open>Q/t\<close> succeeds on the document the \<^verbatim>\<open>add\<close>
  returned and returns a document that holds \<open>C\<close> at \<^verbatim>\<open>Q\<close> again. When the walk to \<open>C\<close>
  crosses objects only, that document is the document the \<^verbatim>\<open>add\<close> was given, member
  for member and in the same order.
\<close>

theorem add_remove_round_trip:
  assumes "Pointer Q = Inr q" and "get D q = Inr C" and "CHR ''/'' \<notin> set t"
    and "(\<exists>ms. C = JObject ms
              \<and> property C (replaceFirst ''~0'' ''~'' (replaceFirst ''~1'' ''/'' t)) = None)
         \<or> (\<exists>A. C = JArray A \<and> t \<noteq> ''-''
              \<and> parseTokenString t C = Inr (Idx (int (length A))))"
  shows "\<exists>p D' D''. Pointer (Q @ CHR ''/'' # t) = Inr p \<and> has D p = Inr False
           \<and> applyPatch D
                [\<lparr>op = ''add'', path = Q @ CHR ''/'' # t, from' = f, value' = Some V\<rparr>]
               = Inr D'
           \<and> applyPatch D'
                [\<lparr>op = ''remove'', path = Q @ CHR ''/'' # t, from' = g, value' = w\<rparr>]
               = Inr D''
           \<and> get D'' q = Inr C
           \<and> (objectsAlong D q \<longrightarrow> D'' = D)"
proof -
  note p = Pointer_child [OF assms(1,3)]
  have cur: "nextTokenIndex q \<le> length (tokenStrings q)"
    by (simp add: p(2))
  have "has D (child q t) = Inr False
       \<and> (\<exists>D' D''. add D (child q t) V = Inr D' \<and> remove D' (child q t) = Inr D''
              \<and> get D'' q = Inr C \<and> (objectsAlong D q \<longrightarrow> D'' = D))"
    using assms(4)
  proof (elim disjE exE conjE)
    fix ms
    let ?k = "replaceFirst ''~0'' ''~'' (replaceFirst ''~1'' ''/'' t)"
    assume C: "C = JObject ms" and none: "property C ?k = None"
    have parse: "parseTokenString t (JObject ms) = Inr (Key ?k)"
      by simp
    note last = round_trip_object [OF none [unfolded C] parse]
    show ?thesis
      by (rule round_trip_walk [OF assms(2) cur,
              where C' = "JObject (AList.update ?k V ms)"])
         (simp_all add: C last)
  next
    fix A
    assume C: "C = JArray A" and t: "t \<noteq> ''-''"
      and parse: "parseTokenString t C = Inr (Idx (int (length A)))"
    note last = round_trip_array [OF t parse [unfolded C]]
    show ?thesis
      by (rule round_trip_walk [OF assms(2) cur, where C' = "JArray (A @ [V])"])
         (simp_all add: C last)
  qed
  then obtain D' D'' where h: "has D (child q t) = Inr False"
    and a: "add D (child q t) V = Inr D'" and r: "remove D' (child q t) = Inr D''"
    and rest: "get D'' q = Inr C" "objectsAlong D q \<longrightarrow> D'' = D"
    by blast
  have "applyPatch D [\<lparr>op = ''add'', path = Q @ CHR ''/'' # t, from' = f, value' = Some V\<rparr>]
        = Inr D'"
    by (simp add: applyOperation_def catchDescribe_def p(1) a)
  moreover have "applyPatch D'
        [\<lparr>op = ''remove'', path = Q @ CHR ''/'' # t, from' = g, value' = w\<rparr>] = Inr D''"
    by (simp add: applyOperation_def catchDescribe_def p(1) r)
  ultimately show ?thesis
    using p(1) h rest by blast
qed

theorem add_remove_round_trip_witness:
  "Pointer ''/a'' = Inr \<lparr>tokenStrings = [''a''], nextTokenIndex = 0\<rparr>
   \<and> get (JObject [(''a'', JArray [JNumber 1, JNumber 2])])
         \<lparr>tokenStrings = [''a''], nextTokenIndex = 0\<rparr> = Inr (JArray [JNumber 1, JNumber 2])
   \<and> objectsAlong (JObject [(''a'', JArray [JNumber 1, JNumber 2])])
         \<lparr>tokenStrings = [''a''], nextTokenIndex = 0\<rparr>
   \<and> CHR ''/'' \<notin> set ''2''
   \<and> ''2'' \<noteq> ''-''
   \<and> parseTokenString ''2'' (JArray [JNumber 1, JNumber 2])
       = Inr (Idx (int (length [JNumber 1, JNumber 2])))
   \<and> applyPatch (JObject [(''a'', JArray [JNumber 1, JNumber 2])])
         [\<lparr>op = ''add'', path = ''/a/2'', from' = None, value' = Some (JString ''x'')\<rparr>]
       = Inr (JObject [(''a'', JArray [JNumber 1, JNumber 2, JString ''x''])])
   \<and> applyPatch (JObject [(''a'', JArray [JNumber 1, JNumber 2, JString ''x''])])
         [\<lparr>op = ''remove'', path = ''/a/2'', from' = None, value' = None\<rparr>]
       = Inr (JObject [(''a'', JArray [JNumber 1, JNumber 2])])
   \<and> get (JObject [(''a'', JObject [(''b'', JNumber 1)])])
         \<lparr>tokenStrings = [''a''], nextTokenIndex = 0\<rparr> = Inr (JObject [(''b'', JNumber 1)])
   \<and> objectsAlong (JObject [(''a'', JObject [(''b'', JNumber 1)])])
         \<lparr>tokenStrings = [''a''], nextTokenIndex = 0\<rparr>
   \<and> property (JObject [(''b'', JNumber 1)])
         (replaceFirst ''~0'' ''~'' (replaceFirst ''~1'' ''/'' ''c'')) = None
   \<and> applyPatch (JObject [(''a'', JObject [(''b'', JNumber 1)])])
         [\<lparr>op = ''add'', path = ''/a/c'', from' = None, value' = Some (JString ''x'')\<rparr>]
       = Inr (JObject [(''a'', JObject [(''b'', JNumber 1), (''c'', JString ''x'')])])
   \<and> applyPatch (JObject [(''a'', JObject [(''b'', JNumber 1), (''c'', JString ''x'')])])
         [\<lparr>op = ''remove'', path = ''/a/c'', from' = None, value' = None\<rparr>]
       = Inr (JObject [(''a'', JObject [(''b'', JNumber 1)])])"
proof -
  let ?q = "\<lparr>tokenStrings = [''a''], nextTokenIndex = 0\<rparr>"
  let ?D = "JObject [(''a'', JArray [JNumber 1, JNumber 2])]"
  let ?E = "JObject [(''a'', JObject [(''b'', JNumber 1)])]"
  have a: "Pointer ''/a'' = Inr ?q"
    by code_simp
  have b: "get ?D ?q = Inr (JArray [JNumber 1, JNumber 2])"
    by code_simp
  have c: "objectsAlong ?D ?q"
    by code_simp
  have d: "CHR ''/'' \<notin> set ''2''" "CHR ''/'' \<notin> set ''c''"
    by simp_all
  have e: "''2'' \<noteq> ''-''"
    "parseTokenString ''2'' (JArray [JNumber 1, JNumber 2])
       = Inr (Idx (int (length [JNumber 1, JNumber 2])))"
    by code_simp+
  have x: "applyPatch ?D
         [\<lparr>op = ''add'', path = ''/a/2'', from' = None, value' = Some (JString ''x'')\<rparr>]
       = Inr (JObject [(''a'', JArray [JNumber 1, JNumber 2, JString ''x''])])"
    by code_simp
  have b': "get ?E ?q = Inr (JObject [(''b'', JNumber 1)])"
    by code_simp
  have c': "objectsAlong ?E ?q"
    by code_simp
  have e': "property (JObject [(''b'', JNumber 1)])
         (replaceFirst ''~0'' ''~'' (replaceFirst ''~1'' ''/'' ''c'')) = None"
    by code_simp
  have x': "applyPatch ?E
         [\<lparr>op = ''add'', path = ''/a/c'', from' = None, value' = Some (JString ''x'')\<rparr>]
       = Inr (JObject [(''a'', JObject [(''b'', JNumber 1), (''c'', JString ''x'')])])"
    by code_simp
  from add_remove_round_trip [OF a b d(1), of None "JString ''x''" None None] c e x
  have y: "applyPatch (JObject [(''a'', JArray [JNumber 1, JNumber 2, JString ''x''])])
         [\<lparr>op = ''remove'', path = ''/a/2'', from' = None, value' = None\<rparr>] = Inr ?D"
    by auto
  from add_remove_round_trip [OF a b' d(2), of None "JString ''x''" None None] c' e' x'
  have y': "applyPatch (JObject [(''a'', JObject [(''b'', JNumber 1), (''c'', JString ''x'')])])
         [\<lparr>op = ''remove'', path = ''/a/c'', from' = None, value' = None\<rparr>] = Inr ?E"
    by auto
  from a b c d(1) e x y b' c' e' x' y' show ?thesis
    by blast
qed

text \<open>
  The claim as stated fails where the \<^verbatim>\<open>add\<close> fails: the parent of \<^verbatim>\<open>/a/b\<close> is missing in
  \<^verbatim>\<open>{}\<close>, and \<^verbatim>\<open>/3\<close> lies beyond the end of \<^verbatim>\<open>[1,2]\<close>. It fails where the pointer ends in
  \<^verbatim>\<open>-\<close>: after the append, \<^verbatim>\<open>/-\<close> again names the position past the last element, and
  the \<^verbatim>\<open>remove\<close> finds nothing there. In each case the pointer names nothing in the
  document.
\<close>

theorem add_remove_round_trip_counterexample:
  "has (JObject []) \<lparr>tokenStrings = [''a'', ''b''], nextTokenIndex = 0\<rparr> = Inr False
   \<and> applyPatch (JObject [])
         [\<lparr>op = ''add'', path = ''/a/b'', from' = None, value' = Some (JNumber 1)\<rparr>]
       = Inl (JsonPatchError [''add failed''] (PathNotObjectOrArray ''undefined''))
   \<and> has (JArray [JNumber 1, JNumber 2]) \<lparr>tokenStrings = [''3''], nextTokenIndex = 0\<rparr>
       = Inr False
   \<and> applyPatch (JArray [JNumber 1, JNumber 2])
         [\<lparr>op = ''add'', path = ''/3'', from' = None, value' = Some (JNumber 3)\<rparr>]
       = Inl (JsonPatchError [''add failed''] OutOfBounds)
   \<and> has (JArray [JNumber 1, JNumber 2]) \<lparr>tokenStrings = [''-''], nextTokenIndex = 0\<rparr>
       = Inr False
   \<and> applyPatch (JArray [JNumber 1, JNumber 2])
         [\<lparr>op = ''add'', path = ''/-'', from' = None, value' = Some (JNumber 3)\<rparr>]
       = Inr (JArray [JNumber 1, JNumber 2, JNumber 3])
   \<and> applyPatch (JArray [JNumber 1, JNumber 2, JNumber 3])
         [\<lparr>op = ''remove'', path = ''/-'', from' = None, value' = None\<rparr>]
       = Inl (JsonPatchError [''remove failed''] NotFound)"
  by code_simp

text \<open>
  Two slips of the code lie beside the round trip. Where the walk crosses an array
  before the last token, \<open>add\<close> inserts the rebuilt element before the one it was built
  from (\<^verbatim>\<open>splice(index, 0, ...)\<close>, where \<open>replace\<close> and \<open>remove\<close> have
  \<^verbatim>\<open>splice(index, 1, ...)\<close>), so the document returned holds both, and the \<^verbatim>\<open>remove\<close>
  leaves the copy behind: the statement above says of such a walk only that the parent
  is restored. And a negative number is accepted as an index: \<^verbatim>\<open>splice\<close> counts it from
  the end, while a member read at it is \<^verbatim>\<open>undefined\<close>.
\<close>

lemma add_keeps_crossed_element:
  "has (JArray [JArray [JNumber 1]]) \<lparr>tokenStrings = [''0'', ''1''], nextTokenIndex = 0\<rparr>
       = Inr False
   \<and> applyPatch (JArray [JArray [JNumber 1]])
         [\<lparr>op = ''add'', path = ''/0/1'', from' = None, value' = Some (JNumber 2)\<rparr>]
       = Inr (JArray [JArray [JNumber 1, JNumber 2], JArray [JNumber 1]])
   \<and> withValueAt (JArray [JArray [JNumber 1]]) \<lparr>tokenStrings = [''0''], nextTokenIndex = 0\<rparr>
         (JArray [JNumber 1, JNumber 2])
       = JArray [JArray [JNumber 1, JNumber 2]]
   \<and> applyPatch (JArray [JArray [JNumber 1, JNumber 2], JArray [JNumber 1]])
         [\<lparr>op = ''remove'', path = ''/0/1'', from' = None, value' = None\<rparr>]
       = Inr (JArray [JArray [JNumber 1], JArray [JNumber 1]])"
  by code_simp

lemma negative_index_accepted:
  "has (JArray [JNumber 1, JNumber 2]) \<lparr>tokenStrings = [''-1''], nextTokenIndex = 0\<rparr>
       = Inr False
   \<and> applyPatch (JArray [JNumber 1, JNumber 2])
         [\<lparr>op = ''add'', path = ''/-1'', from' = None, value' = Some (JNumber 3)\<rparr>]
       = Inr (JArray [JNumber 1, JNumber 3, JNumber 2])
   \<and> applyPatch (JArray [JNumber 1, JNumber 3, JNumber 2])
         [\<lparr>op = ''remove'', path = ''/-1'', from' = None, value' = None\<rparr>]
       = Inl (JsonPatchError [''remove failed''] NotFound)"
  by code_simp

end
